theory Spec2Isabelle
  imports Main "HOL-Library.Sublist"
begin

section \<open>Data model (lib/agents-graph, app/agents/page.tsx)\<close>

text \<open>
  The graph types of the TypeScript sources. A JavaScript string is a sequence of
  UTF-16 code units; a HOL character stands for the code unit of the same number, so
  the model covers the strings whose code units are below 256 (ASCII and Latin-1),
  which include all text of the sources and of the built-in graph. JavaScript numbers
  that only ever hold integers (pixel coordinates, millisecond timestamps) are
  modelled as \<open>int\<close>.
\<close>

datatype http_method = M_GET | M_POST | M_DELETE

datatype group = orchestration | analysis | generation | media | progress

record AgentNode =
  n_id :: string
  n_name :: string
  n_path :: string
  n_methods :: "http_method list"
  n_description :: "string option"
  n_group :: group
  n_env :: "string list option"

record AgentEdge =
  e_from :: string
  e_to :: string
  e_label :: "string option"
  e_optional :: "bool option"

record AgentGraph =
  nodes :: "AgentNode list"
  edges :: "AgentEdge list"

section \<open>String primitives\<close>

text \<open>
  The lower-case mapping of one code unit below 256: the letters A to Z, and the Latin-1
  capitals U+00C0 to U+00DE other than the multiplication sign U+00D7, move up by 32;
  every other code unit is left as it is.
\<close>

definition lower_char :: "char \<Rightarrow> char" where
  "lower_char c =
     (let n = (of_char c :: nat)
      in if (65 \<le> n \<and> n \<le> 90) \<or> (192 \<le> n \<and> n \<le> 222 \<and> n \<noteq> 215)
         then char_of (n + 32) else c)"

text \<open>\<open>String.prototype.toLowerCase\<close>.\<close>

definition toLowerCase :: "string \<Rightarrow> string" where
  "toLowerCase s = map lower_char s"

text \<open>\<open>String.prototype.includes\<close>: \<open>sub\<close> occurs in \<open>s\<close> as a contiguous block.\<close>

fun str_includes :: "string \<Rightarrow> string \<Rightarrow> bool" where
  "str_includes [] sub = (sub = [])"
| "str_includes (c # cs) sub = (prefix sub (c # cs) \<or> str_includes cs sub)"

text \<open>
  \<open>RegExp.prototype.test\<close> for the patterns the page uses: an alternation of literal
  lower-case words, with or without the \<open>i\<close> flag. None of the patterns carries the
  \<open>g\<close> or \<open>y\<close> flag, so \<open>test\<close> keeps no position between calls.
\<close>

definition regex_test :: "string list \<Rightarrow> bool \<Rightarrow> string \<Rightarrow> bool" where
  "regex_test alts ignoreCase s =
     list_ex (str_includes (if ignoreCase then toLowerCase s else s)) alts"

section \<open>Correlation engine (matchAgentByMessage)\<close>

definition some_key :: "string list \<Rightarrow> string \<Rightarrow> bool" where
  "some_key keys trigger = list_ex (\<lambda>k. str_includes (toLowerCase k) trigger) keys"

fun match_pairs :: "(string \<times> string list) list \<Rightarrow> string \<Rightarrow> string option" where
  "match_pairs [] m = None"
| "match_pairs ((i, keys) # ps) m =
     (if some_key keys ''voice run'' \<and> regex_test [''voice''] False m
        then Some ''voice.run''
      else if some_key keys ''vision'' \<and> regex_test [''analyz'', ''image''] True m
        then Some ''vision.analyze''
      else if some_key keys ''cultural'' \<and> regex_test [''cultural'', ''culture''] True m
        then Some ''cultural.intelligence''
      else if some_key keys ''imagen'' \<and> regex_test [''image'', ''imagen''] True m
        then Some ''imagen.generate''
      else if some_key keys ''veo''
            \<and> regex_test [''video'', ''veo'', ''operation'', ''download''] True m
        then Some i
      else match_pairs ps m)"

definition node_pair :: "AgentNode \<Rightarrow> string \<times> string list" where
  "node_pair n = (n_id n, [n_name n, n_path n, n_id n])"

definition matchAgentByMessage :: "AgentGraph \<Rightarrow> string \<Rightarrow> string option" where
  "matchAgentByMessage graph message =
     (let m = toLowerCase message;
          pairs = map node_pair (nodes graph)
      in match_pairs pairs m)"

section \<open>The built-in graph (lib/agents-graph)\<close>

definition mk_node ::
  "string \<Rightarrow> string \<Rightarrow> string \<Rightarrow> http_method list \<Rightarrow> string \<Rightarrow> group \<Rightarrow> string list option
    \<Rightarrow> AgentNode" where
  "mk_node i nm p ms d g e =
     \<lparr>n_id = i, n_name = nm, n_path = p, n_methods = ms, n_description = Some d,
      n_group = g, n_env = e\<rparr>"

definition mk_edge :: "string \<Rightarrow> string \<Rightarrow> string \<Rightarrow> bool option \<Rightarrow> AgentEdge" where
  "mk_edge f t l opt = \<lparr>e_from = f, e_to = t, e_label = Some l, e_optional = opt\<rparr>"

definition neo4j_env :: "string list" where
  "neo4j_env = [''NEO4J_URI'', ''NEO4J_USERNAME'', ''NEO4J_PASSWORD'']"

definition static_nodes :: "AgentNode list" where
  "static_nodes =
    [mk_node ''voice.run'' ''Voice Run'' ''/api/voice/run'' [M_POST]
       ''Orchestrates full campaign: analyze image, cultural cues, image+video generation.''
       orchestration (Some [''NEXT_PUBLIC_BASE_URL'']),
     mk_node ''demographics.expand'' ''Demographics Expand'' ''/api/demographics/expand'' [M_POST]
       ''Expands raw plan text to structured demographics (LLM or heuristic).''
       analysis (Some [''OPENAI_API_KEY'', ''OPENAI_MODEL'']),
     mk_node ''cultural.intelligence'' ''Cultural Intelligence'' ''/api/cultural/intelligence''
       [M_POST] ''Generates cultural insights using Qloo + LLM fallback.''
       analysis (Some [''OPENAI_API_KEY'', ''OPENAI_MODEL'']),
     mk_node ''vision.analyze'' ''Vision Analyze'' ''/api/vision/analyze'' [M_POST]
       ''Extracts structured insights from an image (OpenAI Vision).''
       analysis (Some [''OPENAI_API_KEY'', ''OPENAI_VISION_MODEL'']),
     mk_node ''imagen.generate'' ''Imagen Generate'' ''/api/imagen/generate'' [M_POST]
       ''Generates an image via Imagen; persists to Neo4j and serves via media/file.''
       generation (Some (''GEMINI_API_KEY'' # neo4j_env)),
     mk_node ''gemini.generate'' ''Gemini Generate'' ''/api/gemini/generate'' [M_POST]
       ''Generates image via Gemini; falls back to Imagen; persists to Neo4j.''
       generation (Some (''GEMINI_API_KEY'' # neo4j_env)),
     mk_node ''gemini.edit'' ''Gemini Edit'' ''/api/gemini/edit'' [M_POST]
       ''Edits images via Gemini (multipart); persists to Neo4j.''
       generation (Some (''GEMINI_API_KEY'' # neo4j_env)),
     mk_node ''veo.generate'' ''Veo Generate'' ''/api/veo/generate'' [M_POST]
       ''Starts a video generation operation (Veo).''
       generation (Some [''GEMINI_API_KEY'']),
     mk_node ''veo.operation'' ''Veo Operation'' ''/api/veo/operation'' [M_POST]
       ''Polls a Veo operation for completion and collects URIs.''
       generation (Some [''GEMINI_API_KEY'']),
     mk_node ''veo.download'' ''Veo Download'' ''/api/veo/download'' [M_POST]
       ''Downloads/streams generated video; optionally saves to Neo4j & disk.''
       generation (Some (''GEMINI_API_KEY'' # neo4j_env)),
     mk_node ''media.index'' ''Media Index'' ''/api/media'' [M_GET, M_POST, M_DELETE]
       ''CRUD for Media nodes in Neo4j (images/videos/tags).''
       media (Some neo4j_env),
     mk_node ''media.file'' ''Media File'' ''/api/media/file'' [M_GET]
       ''Streams bytes for image media by id; redirects videos to saved URL.''
       media (Some neo4j_env),
     mk_node ''progress.sse'' ''Progress SSE'' ''/api/progress'' [M_GET]
       ''Server-sent events stream for long-running tasks.''
       progress None,
     mk_node ''progress.push'' ''Progress Push'' ''/api/progress/push'' [M_POST]
       ''Pushes progress messages to SSE clients via in-memory bus.''
       progress None]"

definition static_edges :: "AgentEdge list" where
  "static_edges =
    [mk_edge ''voice.run'' ''vision.analyze'' ''analyze image'' (Some True),
     mk_edge ''voice.run'' ''cultural.intelligence'' ''cultural cues'' None,
     mk_edge ''voice.run'' ''imagen.generate'' ''generate image'' None,
     mk_edge ''voice.run'' ''veo.generate'' ''generate video'' None,
     mk_edge ''veo.generate'' ''veo.operation'' ''poll'' None,
     mk_edge ''veo.operation'' ''veo.download'' ''download/save'' None,
     mk_edge ''gemini.generate'' ''media.file'' ''serve image'' None,
     mk_edge ''gemini.edit'' ''media.file'' ''serve image'' None,
     mk_edge ''imagen.generate'' ''media.file'' ''serve image'' None,
     mk_edge ''voice.run'' ''progress.push'' ''status events'' None]"

definition getAgentGraph :: AgentGraph where
  "getAgentGraph = \<lparr>nodes = static_nodes, edges = static_edges\<rparr>"

section \<open>Layout engine (computeLayout)\<close>

record PositionedNode = AgentNode +
  p_x :: int
  p_y :: int

record PositionedEdge = AgentEdge +
  p_x1 :: int
  p_y1 :: int
  p_x2 :: int
  p_y2 :: int

record Layout =
  positionedNodes :: "PositionedNode list"
  l_edges :: "PositionedEdge list"

definition laneOrder :: "group list" where
  "laneOrder = [orchestration, analysis, generation, media, progress]"

text \<open>
  \<open>laneX\<close> is the object built from \<open>laneOrder.map((g, i) => [g, 120 + i * 260])\<close>;
  it is only read at groups taken from \<open>laneOrder\<close>.
\<close>

definition laneX :: "group \<rightharpoonup> int" where
  "laneX = map_of (map (\<lambda>(i, g). (g, 120 + int i * 260)) (enumerate 0 laneOrder))"

text \<open>The first loop: every node is pushed onto the bucket of its group.\<close>

fun fill_buckets :: "AgentNode list \<Rightarrow> (group \<rightharpoonup> AgentNode list) \<Rightarrow> (group \<rightharpoonup> AgentNode list)" where
  "fill_buckets [] buckets = buckets"
| "fill_buckets (n # ns) buckets =
     (let g = n_group n;
          old = (case buckets g of None \<Rightarrow> [] | Some l \<Rightarrow> l)
      in fill_buckets ns (buckets(g \<mapsto> old @ [n])))"

text \<open>
  \<open>Array.prototype.sort\<close> is stable, and with a consistent comparison function its
  result is the stable sorted arrangement, which insertion from the right computes.
  The comparison \<open>localeCompare\<close> belongs to the platform (it depends on the locale of
  the browser) and is a parameter; \<open>consistent_comparator\<close> is what ECMAScript
  requires of a comparison function.
\<close>

fun insort_cmp :: "('a \<Rightarrow> 'a \<Rightarrow> int) \<Rightarrow> 'a \<Rightarrow> 'a list \<Rightarrow> 'a list" where
  "insort_cmp cmp v [] = [v]"
| "insort_cmp cmp v (w # ws) =
     (if cmp v w \<le> 0 then v # w # ws else w # insort_cmp cmp v ws)"

definition array_sort :: "('a \<Rightarrow> 'a \<Rightarrow> int) \<Rightarrow> 'a list \<Rightarrow> 'a list" where
  "array_sort cmp xs = foldr (insort_cmp cmp) xs []"

definition consistent_comparator :: "('a \<Rightarrow> 'a \<Rightarrow> int) \<Rightarrow> bool" where
  "consistent_comparator cmp \<longleftrightarrow>
     (\<forall>a. cmp a a = 0) \<and>
     (\<forall>a b. cmp a b < 0 \<longleftrightarrow> 0 < cmp b a) \<and>
     (\<forall>a b c. cmp a b \<le> 0 \<and> cmp b c \<le> 0 \<longrightarrow> cmp a c \<le> 0)"

definition by_name :: "(string \<Rightarrow> string \<Rightarrow> int) \<Rightarrow> AgentNode \<Rightarrow> AgentNode \<Rightarrow> int" where
  "by_name localeCompare a b = localeCompare (n_name a) (n_name b)"

definition sort_buckets ::
  "(string \<Rightarrow> string \<Rightarrow> int) \<Rightarrow> (group \<rightharpoonup> AgentNode list) \<Rightarrow> (group \<rightharpoonup> AgentNode list)" where
  "sort_buckets localeCompare buckets =
     (\<lambda>g. map_option (array_sort (by_name localeCompare)) (buckets g))"

definition place_lane :: "(group \<rightharpoonup> AgentNode list) \<Rightarrow> group \<Rightarrow> PositionedNode list" where
  "place_lane buckets g =
     (let list = (case buckets g of None \<Rightarrow> [] | Some l \<Rightarrow> l)
      in map (\<lambda>(idx, n).
                AgentNode.extend n
                  (PositionedNode.fields
                     (case laneX g of Some v \<Rightarrow> v | None \<Rightarrow> 0)
                     (120 + int idx * 160)))
             (enumerate 0 list))"

definition find_node :: "PositionedNode list \<Rightarrow> string \<Rightarrow> PositionedNode option" where
  "find_node ps i = find (\<lambda>n. n_id n = i) ps"

fun place_edges :: "PositionedNode list \<Rightarrow> AgentEdge list \<Rightarrow> PositionedEdge list" where
  "place_edges ps [] = []"
| "place_edges ps (e # es) =
     (case find_node ps (e_from e) of
        None \<Rightarrow> place_edges ps es
      | Some a \<Rightarrow>
         (case find_node ps (e_to e) of
            None \<Rightarrow> place_edges ps es
          | Some b \<Rightarrow>
              AgentEdge.extend e
                (PositionedEdge.fields (p_x a + 200) (p_y a + 48) (p_x b) (p_y b + 48))
              # place_edges ps es))"

definition computeLayout :: "(string \<Rightarrow> string \<Rightarrow> int) \<Rightarrow> AgentGraph \<Rightarrow> Layout" where
  "computeLayout localeCompare graph =
     (let buckets = sort_buckets localeCompare (fill_buckets (nodes graph) Map.empty);
          positioned = concat (map (place_lane buckets) laneOrder)
      in \<lparr>positionedNodes = positioned, l_edges = place_edges positioned (edges graph)\<rparr>)"

text \<open>Comparison by code units, a consistent comparison used to run the layout.\<close>

fun code_unit_compare :: "string \<Rightarrow> string \<Rightarrow> int" where
  "code_unit_compare [] [] = 0"
| "code_unit_compare [] (b # bs) = - 1"
| "code_unit_compare (a # as) [] = 1"
| "code_unit_compare (a # as) (b # bs) =
     (if (of_char a :: nat) < of_char b then - 1
      else if (of_char b :: nat) < of_char a then 1
      else code_unit_compare as bs)"

subsection \<open>Views of the layout used to state its properties\<close>

definition lane_x :: "group \<Rightarrow> int" where
  "lane_x g = (case laneX g of Some v \<Rightarrow> v | None \<Rightarrow> 0)"

definition lane_nodes ::
  "(string \<Rightarrow> string \<Rightarrow> int) \<Rightarrow> AgentNode list \<Rightarrow> group \<Rightarrow> AgentNode list" where
  "lane_nodes lc ns g = array_sort (by_name lc) (filter (\<lambda>n. n_group n = g) ns)"

definition positioned_lane ::
  "(string \<Rightarrow> string \<Rightarrow> int) \<Rightarrow> AgentNode list \<Rightarrow> group \<Rightarrow> PositionedNode list" where
  "positioned_lane lc ns g = place_lane (sort_buckets lc (fill_buckets ns Map.empty)) g"

definition positioned ::
  "(string \<Rightarrow> string \<Rightarrow> int) \<Rightarrow> AgentNode list \<Rightarrow> PositionedNode list" where
  "positioned lc ns = concat (map (positioned_lane lc ns) laneOrder)"

text \<open>The positioned nodes of one lane, in output order.\<close>

definition lane_of :: "Layout \<Rightarrow> group \<Rightarrow> PositionedNode list" where
  "lane_of l g = filter (\<lambda>p. n_group p = g) (positionedNodes l)"

definition node_ids :: "AgentGraph \<Rightarrow> string set" where
  "node_ids graph = set (map n_id (nodes graph))"

definition resolves :: "AgentGraph \<Rightarrow> AgentEdge \<Rightarrow> bool" where
  "resolves graph e \<longleftrightarrow> e_from e \<in> node_ids graph \<and> e_to e \<in> node_ids graph"

section \<open>JSON values and exceptions\<close>

text \<open>
  A parsed JSON value. A number is kept as the decimal text \<open>String(n)\<close> prints for it;
  JSON has no NaN, so a number is falsy exactly when that text is \<open>0\<close>. An object is
  its list of members in source order; \<open>JSON.parse\<close> lets the last duplicate win.
\<close>

datatype json =
    JNull
  | JBool bool
  | JNum string
  | JStr string
  | JArr "json list"
  | JObj "(string \<times> json) list"

text \<open>
  Property access \<open>v?.k\<close>, \<open>None\<close> for \<open>undefined\<close>. The handlers read the keys
  session, message, agentId, status and data only, none of which is a property of a
  primitive or of an array.
\<close>

definition get_prop :: "json \<Rightarrow> string \<Rightarrow> json option" where
  "get_prop v k = (case v of JObj kvs \<Rightarrow> map_of (rev kvs) k | _ \<Rightarrow> None)"

fun truthy :: "json \<Rightarrow> bool" where
  "truthy JNull = False"
| "truthy (JBool b) = b"
| "truthy (JNum s) = (s \<noteq> ''0'')"
| "truthy (JStr s) = (s \<noteq> [])"
| "truthy (JArr xs) = True"
| "truthy (JObj kvs) = True"

text \<open>\<open>a || b\<close> where \<open>a\<close> may be \<open>undefined\<close>.\<close>

definition or_else :: "json option \<Rightarrow> json \<Rightarrow> json" where
  "or_else a b = (case a of Some v \<Rightarrow> if truthy v then v else b | None \<Rightarrow> b)"

text \<open>
  A thrown value, seen through its \<open>message\<close> property, which is all the handlers
  read of it (\<open>e?.message\<close>).
\<close>

datatype thrown = Thrown (thrown_message: "json option")

text \<open>The TypeError of a failed conversion to a primitive, with the message Node gives it.\<close>

definition cannot_convert :: thrown where
  "cannot_convert = Thrown (Some (JStr ''Cannot convert object to primitive value''))"

text \<open>
  \<open>String(v)\<close>. An object is converted by its \<open>toString\<close> method: for a parsed object
  that is the one of \<open>Object.prototype\<close>, unless the object has a member named
  \<open>toString\<close> of its own, which is never a function, and then the conversion throws.
  An array joins the conversions of its elements with commas, \<open>null\<close> giving the empty
  string, and throws when one of them does.
\<close>

fun js_String :: "json \<Rightarrow> thrown + string"
  and js_join :: "json list \<Rightarrow> thrown + string" where
  "js_String JNull = Inr ''null''"
| "js_String (JBool b) = Inr (if b then ''true'' else ''false'')"
| "js_String (JNum s) = Inr s"
| "js_String (JStr s) = Inr s"
| "js_String (JArr xs) = js_join xs"
| "js_String (JObj kvs) =
     (if ''toString'' \<in> set (map fst kvs) then Inl cannot_convert else Inr ''[object Object]'')"
| "js_join [] = Inr []"
| "js_join [v] = (if v = JNull then Inr [] else js_String v)"
| "js_join (v # w # ws) =
     (case (if v = JNull then Inr [] else js_String v) of
        Inl e \<Rightarrow> Inl e
      | Inr s \<Rightarrow> (case js_join (w # ws) of Inl e \<Rightarrow> Inl e | Inr t \<Rightarrow> Inr (s @ '','' @ t)))"

text \<open>\<open>typeof v === 'object'\<close>, which holds of \<open>null\<close> too.\<close>

fun typeof_object :: "json \<Rightarrow> bool" where
  "typeof_object JNull = True"
| "typeof_object (JArr xs) = True"
| "typeof_object (JObj kvs) = True"
| "typeof_object v = False"

definition string_prop :: "json \<Rightarrow> string \<Rightarrow> string option" where
  "string_prop v k = (case get_prop v k of Some (JStr s) \<Rightarrow> Some s | _ \<Rightarrow> None)"

text \<open>
  White space and line terminators of ECMAScript among the code units below 256: tab,
  line feed, vertical tab, form feed, carriage return, space and no-break space.
\<close>

definition is_space :: "char \<Rightarrow> bool" where
  "is_space c \<longleftrightarrow> (of_char c :: nat) \<in> {9, 10, 11, 12, 13, 32, 160}"

text \<open>\<open>String.prototype.trim\<close>.\<close>

definition trim :: "string \<Rightarrow> string" where
  "trim s = rev (dropWhile is_space (rev (dropWhile is_space s)))"

record 'a response =
  r_status :: nat
  r_body :: 'a

section \<open>Progress bus (lib/progress-bus)\<close>

record ProgressEvent =
  ev_text :: "string option"
  ev_agentId :: "string option"
  ev_status :: "string option"
  ev_data :: "json option"
  ev_ts :: int

text \<open>
  Modelled from the spec: a subscriber of the bus, which is registered under one session
  and keeps the events handed to it, oldest first (section 4.1; the bus module is not
  among the sources).
\<close>

record subscriber =
  sub_session :: string
  received :: "ProgressEvent list"

type_synonym bus = "subscriber list"

definition has_content :: "string option \<Rightarrow> bool" where
  "has_content v = (case v of Some s \<Rightarrow> s \<noteq> [] | None \<Rightarrow> False)"

definition deliver :: "string \<Rightarrow> ProgressEvent \<Rightarrow> subscriber \<Rightarrow> subscriber" where
  "deliver sessionId ev s =
     (if sub_session s = sessionId then s\<lparr>received := received s @ [ev]\<rparr> else s)"

text \<open>
  Modelled from the spec: the bus module (\<open>getBus\<close>, imported from lib/progress-bus) is
  not among the sources. Following section 4.1, \<open>publish\<close> rejects an event that has
  neither message text nor a node id with \<open>InvalidEvent\<close>, and otherwise hands the
  event to every subscriber registered under the session and to no other. No queue
  bound is modelled; the time stamp is the one the endpoint puts on the event.
\<close>

definition publish :: "string \<Rightarrow> ProgressEvent \<Rightarrow> bus \<Rightarrow> thrown option \<times> bus" where
  "publish sessionId ev b =
     (if \<not> has_content (ev_text ev) \<and> \<not> has_content (ev_agentId ev)
      then (Some (Thrown (Some (JStr ''InvalidEvent''))), b)
      else (None, map (deliver sessionId ev) b))"

section \<open>Publish endpoint (POST of api/progress/push)\<close>

definition catch_response :: "string \<Rightarrow> thrown \<Rightarrow> json response" where
  "catch_response fallback e =
     \<lparr>r_status = 500,
      r_body = JObj [(''ok'', JBool False),
                   (''error'', or_else (thrown_message e) (JStr fallback))]\<rparr>"

text \<open>
  \<open>req\<close> is the outcome of \<open>await req.json()\<close>: the parsed body, or the value thrown
  on a body that is not JSON. \<open>now\<close> is \<open>Date.now()\<close>. \<open>bus_publish\<close> is the
  method \<open>getBus().publish\<close>, acting on the state \<open>b\<close> of the bus, which the handler
  returns with its response; a call of it yields the new state of the bus, together
  with the value it threw if it did not return normally. The session is converted
  first, so a conversion that throws is caught before anything else is looked at.
\<close>

definition POST ::
  "(string \<Rightarrow> ProgressEvent \<Rightarrow> 'b \<Rightarrow> thrown option \<times> 'b) \<Rightarrow> int \<Rightarrow> thrown + json \<Rightarrow> 'b
     \<Rightarrow> json response \<times> 'b" where
  "POST bus_publish now req b =
     (case req of
        Inl e \<Rightarrow> (catch_response ''Failed to push'' e, b)
      | Inr body \<Rightarrow>
         (case js_String (or_else (get_prop body ''session'') (JStr ''default'')) of
            Inl e \<Rightarrow> (catch_response ''Failed to push'' e, b)
          | Inr session \<Rightarrow>
             (let message = (case string_prop body ''message'' of Some s \<Rightarrow> trim s | None \<Rightarrow> []);
                  agentId = string_prop body ''agentId'';
                  status = string_prop body ''status'';
                  data = (if truthy body
                          then (case get_prop body ''data'' of
                                  Some v \<Rightarrow> if typeof_object v then Some v else None
                                | None \<Rightarrow> None)
                          else None)
              in if message = [] \<and> \<not> has_content agentId
                 then (\<lparr>r_status = 400,
                        r_body = JObj [(''ok'', JBool False),
                                     (''error'', JStr ''Empty message and no agentId'')]\<rparr>, b)
                 else (case bus_publish session
                              \<lparr>ev_text = (if message = [] then None else Some message),
                               ev_agentId = agentId, ev_status = status, ev_data = data,
                               ev_ts = now\<rparr> b of
                         (Some e, b') \<Rightarrow> (catch_response ''Failed to push'' e, b')
                       | (None, b') \<Rightarrow>
                           (\<lparr>r_status = 200, r_body = JObj [(''ok'', JBool True)]\<rparr>, b')))))"

section \<open>Graph query endpoint (GET of api/agents/graph)\<close>

datatype graph_body = GraphBody AgentGraph | JsonBody json

text \<open>
  \<open>GET_handler\<close> is the handler over the outcome of the call \<open>getAgentGraph()\<close>, a
  graph or a thrown value; \<open>GET\<close> is the handler with the repository's
  \<open>getAgentGraph\<close>, which returns the built-in graph.
\<close>

definition GET_handler :: "thrown + AgentGraph \<Rightarrow> graph_body response" where
  "GET_handler outcome =
     (case outcome of
        Inr graph \<Rightarrow> \<lparr>r_status = 200, r_body = GraphBody graph\<rparr>
      | Inl e \<Rightarrow>
          \<lparr>r_status = 500,
           r_body = JsonBody (JObj [(''error'',
                     or_else (thrown_message e) (JStr ''Failed to get graph''))])\<rparr>)"

definition GET :: "graph_body response" where
  "GET = GET_handler (Inr getAgentGraph)"

section \<open>Activity decay tracker (AgentsGraphPage)\<close>

type_synonym activeIds = "string \<rightharpoonup> int"

text \<open>
  The message handler of the event source. \<open>ev\<close> is the parsed \<open>ev.data\<close>, \<open>None\<close>
  when \<open>JSON.parse\<close> throws (the handler then swallows the exception); \<open>now\<close> is
  \<open>Date.now()\<close>.
\<close>

definition onmessage ::
  "AgentGraph \<Rightarrow> int \<Rightarrow> ProgressEvent option \<Rightarrow> activeIds \<Rightarrow> activeIds" where
  "onmessage graph now ev prev =
     (case ev of
        None \<Rightarrow> prev
      | Some d \<Rightarrow>
          if has_content (ev_agentId d)
          then (case ev_agentId d of Some agentId \<Rightarrow> prev(agentId \<mapsto> now) | None \<Rightarrow> prev)
          else (let text = (case ev_text d of Some t \<Rightarrow> t | None \<Rightarrow> [])
                in case matchAgentByMessage graph text of
                     Some matched \<Rightarrow> if matched \<noteq> [] then prev(matched \<mapsto> now) else prev
                   | None \<Rightarrow> prev))"

text \<open>
  The body of the interval callback, with \<open>now = Date.now()\<close>. The callback builds the
  next record by the assignments \<open>next[k] = v\<close> on an empty object. An assignment under
  the key \<open>__proto__\<close> reaches the setter that \<open>Object.prototype\<close> has for this name,
  which ignores a number, so under this key nothing is stored. (The message handler
  builds its record with a computed key in an object literal, which defines the
  member whatever the key.)
\<close>

definition sweep :: "int \<Rightarrow> activeIds \<Rightarrow> activeIds" where
  "sweep now prev =
     (\<lambda>k. case prev k of
             Some v \<Rightarrow> if now - v < 4000 \<and> k \<noteq> ''__proto__'' then Some v else None
           | None \<Rightarrow> None)"

text \<open>
  A run of the page is the sequence of callbacks the event loop executes, one at a
  time: messages and timer ticks, each with the clock value it reads.
\<close>

datatype action = Message int "ProgressEvent option" | Sweep int

fun step :: "AgentGraph \<Rightarrow> action \<Rightarrow> activeIds \<Rightarrow> activeIds" where
  "step graph (Message now ev) m = onmessage graph now ev m"
| "step graph (Sweep now) m = sweep now m"

fun run :: "AgentGraph \<Rightarrow> action list \<Rightarrow> activeIds \<Rightarrow> activeIds" where
  "run graph [] m = m"
| "run graph (a # as) m = run graph as (step graph a m)"

text \<open>The node id a message is recorded under, if any.\<close>

definition target :: "AgentGraph \<Rightarrow> ProgressEvent option \<Rightarrow> string option" where
  "target graph ev =
     (case ev of
        None \<Rightarrow> None
      | Some d \<Rightarrow>
          if has_content (ev_agentId d) then ev_agentId d
          else (case matchAgentByMessage graph (case ev_text d of Some t \<Rightarrow> t | None \<Rightarrow> []) of
                  Some matched \<Rightarrow> if matched \<noteq> [] then Some matched else None
                | None \<Rightarrow> None))"

fun arrives_for :: "AgentGraph \<Rightarrow> string \<Rightarrow> action \<Rightarrow> bool" where
  "arrives_for graph k (Message now ev) = (target graph ev = Some k)"
| "arrives_for graph k (Sweep now) = False"

fun sweep_times :: "action list \<Rightarrow> int list" where
  "sweep_times [] = []"
| "sweep_times (Message now ev # as) = sweep_times as"
| "sweep_times (Sweep now # as) = now # sweep_times as"

text \<open>
  The ticks of a timer of period 1000 ms whose first tick is at \<open>s0\<close>, up to and
  including time \<open>q\<close>.
\<close>

definition due_sweeps :: "int \<Rightarrow> int \<Rightarrow> int list" where
  "due_sweeps s0 q =
     (if q < s0 then []
      else map (\<lambda>i. s0 + 1000 * int i) [0..<Suc (nat ((q - s0) div 1000))])"

section \<open>Inputs for running the correlation engine\<close>

text \<open>The progress message of the video step, and the test for a node that the last rule looks at.\<close>

definition veo_message :: string where
  "veo_message = ''Generating video with veo, please wait''"

definition veo_keyed :: "AgentNode \<Rightarrow> bool" where
  "veo_keyed n = some_key [n_name n, n_path n, n_id n] ''veo''"

definition veo_swapped_graph :: AgentGraph where
  "veo_swapped_graph = \<lparr>nodes = [static_nodes ! 8, static_nodes ! 7], edges = []\<rparr>"

definition lone_graph :: "string \<Rightarrow> AgentGraph" where
  "lone_graph nm = \<lparr>nodes = [mk_node ''n1'' nm ''/api/n1'' [M_POST] ''only node'' media None], edges = []\<rparr>"

text \<open>The lookup keys of a node, and the conditions of the five rules on one node.\<close>

definition node_keys :: "AgentNode \<Rightarrow> string list" where
  "node_keys n = [n_name n, n_path n, n_id n]"

definition rule_voice :: "string list \<Rightarrow> string \<Rightarrow> bool" where
  "rule_voice keys m \<longleftrightarrow> some_key keys ''voice run'' \<and> regex_test [''voice''] False m"

definition rule_vision :: "string list \<Rightarrow> string \<Rightarrow> bool" where
  "rule_vision keys m \<longleftrightarrow> some_key keys ''vision'' \<and> regex_test [''analyz'', ''image''] True m"

definition rule_cultural :: "string list \<Rightarrow> string \<Rightarrow> bool" where
  "rule_cultural keys m \<longleftrightarrow>
     some_key keys ''cultural'' \<and> regex_test [''cultural'', ''culture''] True m"

definition rule_imagen :: "string list \<Rightarrow> string \<Rightarrow> bool" where
  "rule_imagen keys m \<longleftrightarrow> some_key keys ''imagen'' \<and> regex_test [''image'', ''imagen''] True m"

definition rule_veo :: "string list \<Rightarrow> string \<Rightarrow> bool" where
  "rule_veo keys m \<longleftrightarrow>
     some_key keys ''veo'' \<and> regex_test [''video'', ''veo'', ''operation'', ''download''] True m"

definition fires :: "string list \<Rightarrow> string \<Rightarrow> bool" where
  "fires keys m \<longleftrightarrow>
     rule_voice keys m \<or> rule_vision keys m \<or> rule_cultural keys m \<or> rule_imagen keys m
     \<or> rule_veo keys m"

text \<open>
  A graph whose second node has a name containing ``vision'' and the id \<open>n1\<close>, after a
  node on which no rule can fire; and a graph of the built-in nodes ``Vision Analyze''
  and ``Voice Run'', in this order.
\<close>

definition foreign_graph :: AgentGraph where
  "foreign_graph =
     \<lparr>nodes = [static_nodes ! 1,
               mk_node ''n1'' ''Television'' ''/api/n1'' [M_POST] ''second node'' media None],
      edges = []\<rparr>"

definition clash_graph :: AgentGraph where
  "clash_graph = \<lparr>nodes = [static_nodes ! 3, static_nodes ! 0], edges = []\<rparr>"

section \<open>Inputs for running the tracker\<close>

text \<open>An event that names its node, and one that carries text only.\<close>

definition agent_event :: "string \<Rightarrow> ProgressEvent" where
  "agent_event a = \<lparr>ev_text = None, ev_agentId = Some a, ev_status = None, ev_data = None, ev_ts = 0\<rparr>"

definition text_event :: "string \<Rightarrow> ProgressEvent" where
  "text_event t = \<lparr>ev_text = Some t, ev_agentId = None, ev_status = None, ev_data = None, ev_ts = 0\<rparr>"

section \<open>Inputs for running the publish endpoint\<close>

text \<open>
  Three subscribers on different sessions; a request with a blank message and an empty
  agentId; a request that names its node; a request that carries only text, with white
  space around it; and a request whose session is an object that cannot be converted
  to a string.
\<close>

definition demo_bus :: bus where
  "demo_bus =
     [\<lparr>sub_session = ''s1'', received = []\<rparr>,
      \<lparr>sub_session = ''s2'', received = []\<rparr>,
      \<lparr>sub_session = ''default'', received = []\<rparr>]"

definition blank_request :: json where
  "blank_request =
     JObj [(''session'', JStr ''s1''),
           (''message'', JStr [CHR '' '', CHR 0x09, CHR 0xA0, CHR 0x0A]),
           (''agentId'', JStr [])]"

definition agent_request :: json where
  "agent_request = JObj [(''session'', JStr ''s1''), (''agentId'', JStr ''vision.analyze'')]"

definition text_request :: json where
  "text_request =
     JObj [(''message'', JStr (CHR 0x09 # CHR 0xA0 # ''Rendering frame 3  '' @ [CHR 0x0A]))]"

definition unconvertible_request :: json where
  "unconvertible_request =
     JObj [(''session'', JObj [(''toString'', JNum ''1'')]),
           (''agentId'', JStr ''vision.analyze'')]"

text \<open>The request carries neither a message other than white space nor an agentId.\<close>

definition lacks_content :: "json \<Rightarrow> bool" where
  "lacks_content body \<longleftrightarrow>
     (case string_prop body ''message'' of Some s \<Rightarrow> list_all is_space s | None \<Rightarrow> True)
     \<and> \<not> has_content (string_prop body ''agentId'')"

text \<open>The session of a request as the handler reads it, before conversion.\<close>

definition session_value :: "json \<Rightarrow> json" where
  "session_value body = or_else (get_prop body ''session'') (JStr ''default'')"

section \<open>A small graph for running the definitions\<close>

text \<open>
  Four nodes, two of them with the same display name in one lane, and four edges, two
  of which point at ids no node has.
\<close>

definition demo_nodes :: "AgentNode list" where
  "demo_nodes =
     [mk_node ''b1'' ''Beta'' ''/api/b1'' [M_POST] ''first beta'' analysis None,
      mk_node ''a0'' ''Alpha'' ''/api/a0'' [M_GET] ''entry'' orchestration None,
      mk_node ''a2'' ''Alpha'' ''/api/a2'' [M_POST] ''alpha'' analysis None,
      mk_node ''b3'' ''Beta'' ''/api/b3'' [M_POST] ''second beta'' analysis None]"

definition demo_edges :: "AgentEdge list" where
  "demo_edges =
     [mk_edge ''a0'' ''b1'' ''run'' None,
      mk_edge ''a0'' ''missing'' ''lost'' None,
      mk_edge ''ghost'' ''b1'' ''lost'' (Some True),
      mk_edge ''b1'' ''a2'' ''next'' None]"

definition demo_graph :: AgentGraph where
  "demo_graph = \<lparr>nodes = demo_nodes, edges = demo_edges\<rparr>"

text \<open>A graph in which an orchestration node has the id of an analysis node.\<close>

definition dup_graph :: AgentGraph where
  "dup_graph =
     \<lparr>nodes = [mk_node ''a'' ''Alpha'' ''/api/a'' [M_POST] ''entry'' orchestration None,
               mk_node ''b'' ''Beta'' ''/api/b'' [M_POST] ''step'' analysis None,
               mk_node ''b'' ''Gamma'' ''/api/c'' [M_POST] ''same id as Beta'' orchestration None],
      edges = [mk_edge ''a'' ''b'' ''run'' None]\<rparr>"

section \<open>Properties of the layout engine\<close>

lemma fill_buckets_get:
  "(case fill_buckets ns b g of None \<Rightarrow> [] | Some l \<Rightarrow> l) =
   (case b g of None \<Rightarrow> [] | Some l \<Rightarrow> l) @ filter (\<lambda>n. n_group n = g) ns"
  by (induction ns arbitrary: b) (auto simp: Let_def split: option.splits)

lemma set_insort_cmp: "set (insort_cmp cmp v xs) = insert v (set xs)"
  by (induction xs) auto

lemma set_array_sort: "set (array_sort cmp xs) = set xs"
  by (induction xs) (auto simp: array_sort_def set_insort_cmp)

lemma length_insort_cmp: "length (insort_cmp cmp v xs) = Suc (length xs)"
  by (induction xs) auto

lemma length_array_sort: "length (array_sort cmp xs) = length xs"
  by (induction xs) (auto simp: array_sort_def length_insort_cmp)

lemma sorted_bucket:
  "(case sort_buckets lc (fill_buckets ns Map.empty) g of None \<Rightarrow> [] | Some l \<Rightarrow> l)
     = lane_nodes lc ns g"
proof -
  have "(case fill_buckets ns Map.empty g of None \<Rightarrow> [] | Some l \<Rightarrow> l)
          = filter (\<lambda>n. n_group n = g) ns"
    using fill_buckets_get [of ns Map.empty g] by simp
  then show ?thesis
    by (cases "fill_buckets ns Map.empty g")
       (auto simp: sort_buckets_def lane_nodes_def array_sort_def)
qed

lemma laneX_values:
  "laneX orchestration = Some 120" "laneX analysis = Some 380" "laneX generation = Some 640"
  "laneX media = Some 900" "laneX progress = Some 1160"
  by (simp_all add: laneX_def laneOrder_def enumerate_eq_zip)


lemma extend_node_simps:
  "AgentNode.truncate (AgentNode.extend n (PositionedNode.fields a b)) = n"
  "n_id (AgentNode.extend n (PositionedNode.fields a b)) = n_id n"
  "n_name (AgentNode.extend n (PositionedNode.fields a b)) = n_name n"
  "n_group (AgentNode.extend n (PositionedNode.fields a b)) = n_group n"
  "p_x (AgentNode.extend n (PositionedNode.fields a b)) = a"
  "p_y (AgentNode.extend n (PositionedNode.fields a b)) = b"
  by (simp_all add: AgentNode.defs PositionedNode.defs)

lemma positioned_lane_eq:
  "positioned_lane lc ns g =
     map (\<lambda>(idx, n). AgentNode.extend n (PositionedNode.fields (lane_x g) (120 + int idx * 160)))
         (enumerate 0 (lane_nodes lc ns g))"
  unfolding positioned_lane_def place_lane_def sorted_bucket lane_x_def by simp

lemma truncate_positioned_lane:
  "map AgentNode.truncate (positioned_lane lc ns g) = lane_nodes lc ns g"
proof -
  have eq: "AgentNode.truncate
              (case q of (idx, n) \<Rightarrow>
                 AgentNode.extend n (PositionedNode.fields a (120 + int idx * 160))) = snd q"
    for a and q :: "nat \<times> AgentNode"
    by (cases q) (simp add: AgentNode.defs PositionedNode.defs)
  show ?thesis by (simp add: positioned_lane_eq comp_def eq)
qed

lemma p_y_positioned_lane:
  "map p_y (positioned_lane lc ns g) = map (\<lambda>i. 120 + int i * 160) [0..<length (lane_nodes lc ns g)]"
proof -
  have eq: "p_y (case q of (idx, n) \<Rightarrow>
                 AgentNode.extend n (PositionedNode.fields a (120 + int idx * 160)))
            = 120 + int (fst q) * 160"
    for a and q :: "nat \<times> AgentNode"
    by (cases q) (simp add: AgentNode.defs PositionedNode.defs)
  have "map p_y (positioned_lane lc ns g)
           = map (\<lambda>q. 120 + int (fst q) * 160) (enumerate 0 (lane_nodes lc ns g))"
    by (simp add: positioned_lane_eq comp_def eq)
  also have "\<dots> = map ((\<lambda>i. 120 + int i * 160) \<circ> fst) (enumerate 0 (lane_nodes lc ns g))"
    by (simp add: comp_def)
  also have "\<dots> = map (\<lambda>i. 120 + int i * 160) (map fst (enumerate 0 (lane_nodes lc ns g)))"
    by (simp only: map_map)
  finally show ?thesis by simp
qed

lemma in_positioned_lane:
  assumes "p \<in> set (positioned_lane lc ns g)"
  shows "n_group p = g \<and> p_x p = lane_x g \<and> AgentNode.truncate p \<in> set ns"
proof -
  from assms obtain q where q: "q \<in> set (enumerate 0 (lane_nodes lc ns g))"
    and p: "p = AgentNode.extend (snd q)
                  (PositionedNode.fields (lane_x g) (120 + int (fst q) * 160))"
    by (auto simp: positioned_lane_eq)
  from q have "fst q < length (lane_nodes lc ns g) \<and> lane_nodes lc ns g ! fst q = snd q"
    by (auto simp: in_set_enumerate_eq)
  then have "snd q \<in> set (lane_nodes lc ns g)"
    by (metis nth_mem)
  then have "n_group (snd q) = g \<and> snd q \<in> set ns"
    by (simp add: lane_nodes_def set_array_sort)
  with p show ?thesis by (simp add: extend_node_simps)
qed

lemma computeLayout_eq:
  "computeLayout lc g =
     \<lparr>positionedNodes = positioned lc (nodes g),
      l_edges = place_edges (positioned lc (nodes g)) (edges g)\<rparr>"
  by (simp add: computeLayout_def positioned_def positioned_lane_def Let_def cong: map_cong)

lemma filter_other_lane:
  "g' \<noteq> g \<Longrightarrow> filter (\<lambda>p. n_group p = g) (positioned_lane lc ns g') = []"
  by (auto simp: filter_empty_conv dest: in_positioned_lane)

lemma filter_same_lane:
  "filter (\<lambda>p. n_group p = g) (positioned_lane lc ns g) = positioned_lane lc ns g"
  by (auto simp: filter_id_conv dest: in_positioned_lane)

lemma lane_of_positioned:
  "filter (\<lambda>p. n_group p = g) (positioned lc ns) = positioned_lane lc ns g"
  by (cases g) (simp_all add: positioned_def laneOrder_def filter_other_lane filter_same_lane)

lemma set_positioned:
  "set (positioned lc ns) = (\<Union>g. set (positioned_lane lc ns g))"
proof -
  have "set laneOrder = UNIV"
    using group.exhaust by (auto simp: laneOrder_def)
  then show ?thesis by (simp add: positioned_def)
qed

lemma truncate_set_positioned:
  "AgentNode.truncate ` set (positioned lc ns) = set ns"
proof -
  have "AgentNode.truncate ` set (positioned_lane lc ns g) = {n \<in> set ns. n_group n = g}" for g
    using truncate_positioned_lane [of lc ns g, THEN arg_cong, of set]
    by (simp add: lane_nodes_def set_array_sort)
  then show ?thesis by (auto simp: set_positioned image_UN)
qed

lemma n_id_truncate: "n_id (AgentNode.truncate p) = n_id p"
  by (simp add: AgentNode.defs)

lemma ids_positioned: "n_id ` set (positioned lc ns) = n_id ` set ns"
proof -
  have "n_id ` set (positioned lc ns) = n_id ` (AgentNode.truncate ` set (positioned lc ns))"
    by (simp add: image_image n_id_truncate)
  then show ?thesis by (simp add: truncate_set_positioned)
qed

lemma find_node_None: "find_node ps i = None \<longleftrightarrow> i \<notin> n_id ` set ps"
  by (auto simp: find_node_def find_None_iff)

lemma find_node_Some: "find_node ps i = Some a \<Longrightarrow> a \<in> set ps \<and> n_id a = i"
  by (auto simp: find_node_def find_Some_iff)

lemma truncate_place_edges:
  "map AgentEdge.truncate (place_edges ps es)
     = filter (\<lambda>e. e_from e \<in> n_id ` set ps \<and> e_to e \<in> n_id ` set ps) es"
proof (induction es)
  case Nil
  show ?case by simp
next
  case (Cons e es)
  show ?case
  proof (cases "find_node ps (e_from e)")
    case None
    with Cons show ?thesis by (simp add: find_node_None [symmetric])
  next
    case a: (Some a)
    show ?thesis
    proof (cases "find_node ps (e_to e)")
      case None
      with a Cons show ?thesis by (simp add: find_node_None [symmetric])
    next
      case (Some b)
      with a Cons show ?thesis
        by (simp add: find_node_None [symmetric] AgentEdge.defs PositionedEdge.defs)
    qed
  qed
qed

lemma place_edges_coords:
  "pe \<in> set (place_edges ps es) \<Longrightarrow>
     \<exists>a b. find_node ps (e_from pe) = Some a \<and> find_node ps (e_to pe) = Some b \<and>
           p_x1 pe = p_x a + 200 \<and> p_y1 pe = p_y a + 48 \<and>
           p_x2 pe = p_x b \<and> p_y2 pe = p_y b + 48"
  by (induction es)
     (auto simp: AgentEdge.defs PositionedEdge.defs split: option.splits)

subsection \<open>Sorting with a comparison function\<close>

lemma consistent_comparatorD:
  assumes "consistent_comparator cmp"
  shows "(\<forall>a. cmp a a = 0) \<and> (\<forall>a b. cmp a b < 0 \<longleftrightarrow> 0 < cmp b a) \<and>
     (\<forall>a b c. cmp a b \<le> 0 \<and> cmp b c \<le> 0 \<longrightarrow> cmp a c \<le> 0)"
  using assms unfolding consistent_comparator_def .

lemmas consistent_refl = consistent_comparatorD [THEN conjunct1, rule_format]
lemmas consistent_sym = consistent_comparatorD [THEN conjunct2, THEN conjunct1, rule_format]
lemmas consistent_trans = consistent_comparatorD [THEN conjunct2, THEN conjunct2, rule_format]

lemma consistent_total:
  "consistent_comparator cmp \<Longrightarrow> \<not> cmp a b \<le> 0 \<Longrightarrow> cmp b a \<le> 0"
  using consistent_sym [of cmp b a] by simp

lemma consistent_equiv_le:
  assumes "consistent_comparator cmp" "cmp a k = 0" "cmp b k = 0"
  shows "cmp a b \<le> 0"
proof -
  from assms(1,3) have "\<not> cmp k b < 0"
    using consistent_sym [of cmp k b] by simp
  moreover from assms(1,3) have "\<not> 0 < cmp k b"
    using consistent_sym [of cmp b k] by simp
  ultimately have "cmp k b \<le> 0" by simp
  moreover from assms(2) have "cmp a k \<le> 0" by simp
  ultimately show ?thesis
    using consistent_trans [OF assms(1), of a k b] by simp
qed

lemma sorted_insort_cmp:
  assumes c: "consistent_comparator cmp"
  shows "sorted_wrt (\<lambda>a b. cmp a b \<le> 0) xs \<Longrightarrow> sorted_wrt (\<lambda>a b. cmp a b \<le> 0) (insort_cmp cmp v xs)"
proof (induction xs)
  case Nil
  show ?case by simp
next
  case (Cons w ws)
  show ?case
  proof (cases "cmp v w \<le> 0")
    case True
    have "cmp v u \<le> 0" if "u \<in> set ws" for u
    proof -
      from Cons.prems that have "cmp w u \<le> 0" by simp
      with True show ?thesis using consistent_trans [OF c, of v w u] by simp
    qed
    with True Cons.prems show ?thesis by simp
  next
    case False
    with c have "cmp w v \<le> 0" by (rule consistent_total)
    with False Cons show ?thesis
      by (simp add: set_insort_cmp)
  qed
qed

lemma sorted_array_sort:
  "consistent_comparator cmp \<Longrightarrow> sorted_wrt (\<lambda>a b. cmp a b \<le> 0) (array_sort cmp xs)"
  by (induction xs) (simp_all add: array_sort_def sorted_insort_cmp)

lemma filter_insort_cmp:
  assumes "\<And>a b. P a \<Longrightarrow> P b \<Longrightarrow> cmp a b \<le> 0"
  shows "filter P (insort_cmp cmp v xs) = (if P v then v # filter P xs else filter P xs)"
  using assms by (induction xs) simp_all

lemma filter_array_sort:
  assumes "\<And>a b. P a \<Longrightarrow> P b \<Longrightarrow> cmp a b \<le> 0"
  shows "filter P (array_sort cmp xs) = filter P xs"
  using assms by (induction xs) (simp_all add: array_sort_def filter_insort_cmp)

lemma consistent_by_name:
  assumes c: "consistent_comparator lc"
  shows "consistent_comparator (by_name lc)"
  unfolding consistent_comparator_def by_name_def
proof (intro conjI allI impI)
  fix a b c' :: AgentNode
  show "lc (n_name a) (n_name a) = 0" by (rule consistent_refl [OF c])
  show "lc (n_name a) (n_name b) < 0 \<longleftrightarrow> 0 < lc (n_name b) (n_name a)"
    by (rule consistent_sym [OF c])
  assume "lc (n_name a) (n_name b) \<le> 0 \<and> lc (n_name b) (n_name c') \<le> 0"
  then show "lc (n_name a) (n_name c') \<le> 0"
    using consistent_trans [OF c, of "n_name a" "n_name b" "n_name c'"] by simp
qed

lemma code_unit_compare_refl: "code_unit_compare a a = 0"
  by (induction a) simp_all

lemma code_unit_compare_sym: "code_unit_compare a b < 0 \<longleftrightarrow> 0 < code_unit_compare b a"
  by (induction a b rule: code_unit_compare.induct) simp_all

lemma code_unit_compare_le:
  "code_unit_compare a b \<le> 0 \<Longrightarrow> code_unit_compare b c \<le> 0 \<Longrightarrow> code_unit_compare a c \<le> 0"
proof (induction a b arbitrary: c rule: code_unit_compare.induct)
  case 1
  then show ?case by simp
next
  case (2 b bs)
  then show ?case by (cases c) simp_all
next
  case (3 a as)
  then show ?case by simp
next
  case (4 a as b bs)
  show ?case
  proof (cases c)
    case Nil
    with 4 show ?thesis by simp
  next
    case (Cons d ds)
    show ?thesis
    proof (cases "(of_char a :: nat) < of_char b")
      case True
      with "4.prems"(2) Cons show ?thesis by (auto split: if_splits)
    next
      case False
      with "4.prems"(1) have ab: "(of_char a :: nat) = of_char b" and 1: "code_unit_compare as bs \<le> 0"
        by (simp_all split: if_splits)
      from "4.prems"(2) Cons ab consider "(of_char a :: nat) < of_char d"
        | "(of_char a :: nat) = of_char d" "code_unit_compare bs ds \<le> 0"
        by (simp split: if_splits)
      then show ?thesis
      proof cases
        case 1
        with Cons show ?thesis by simp
      next
        case 2
        from False ab have "\<not> (of_char b :: nat) < of_char a" by simp
        with "4.IH" [OF False this 1 2(2)] 2 Cons show ?thesis by simp
      qed
    qed
  qed
qed

lemma consistent_code_unit_compare: "consistent_comparator code_unit_compare"
  unfolding consistent_comparator_def
proof (intro conjI allI impI)
  fix a b c :: string
  show "code_unit_compare a a = 0" by (rule code_unit_compare_refl)
  show "code_unit_compare a b < 0 \<longleftrightarrow> 0 < code_unit_compare b a" by (rule code_unit_compare_sym)
  assume "code_unit_compare a b \<le> 0 \<and> code_unit_compare b c \<le> 0"
  then show "code_unit_compare a c \<le> 0"
    using code_unit_compare_le [of a b c] by simp
qed

subsection \<open>Resolving nodes and edges\<close>

lemma ids_positioned_lane:
  "n_id ` set (positioned_lane lc ns g) = n_id ` {n \<in> set ns. n_group n = g}"
proof -
  have "AgentNode.truncate ` set (positioned_lane lc ns g) = {n \<in> set ns. n_group n = g}"
    using truncate_positioned_lane [of lc ns g, THEN arg_cong, of set]
    by (simp add: lane_nodes_def set_array_sort)
  then have "n_id ` (AgentNode.truncate ` set (positioned_lane lc ns g))
               = n_id ` {n \<in> set ns. n_group n = g}"
    by (rule arg_cong)
  then show ?thesis by (simp add: image_image n_id_truncate)
qed

lemma find_node_append:
  "find_node (ps @ qs) i = (case find_node ps i of None \<Rightarrow> find_node qs i | Some p \<Rightarrow> Some p)"
  by (induction ps) (simp_all add: find_node_def)

lemma positioned_lanes:
  "positioned lc ns =
     positioned_lane lc ns orchestration @ positioned_lane lc ns analysis @
     positioned_lane lc ns generation @ positioned_lane lc ns media @
     positioned_lane lc ns progress"
  by (simp add: positioned_def laneOrder_def)

lemma find_node_in_lane:
  assumes "A \<in> set ns" "n_group A = g"
  shows "\<exists>pa. find_node (positioned_lane lc ns g) (n_id A) = Some pa
              \<and> pa \<in> set (positioned_lane lc ns g)"
proof -
  from assms have "n_id A \<in> n_id ` {n \<in> set ns. n_group n = g}" by blast
  then have "n_id A \<in> n_id ` set (positioned_lane lc ns g)"
    by (simp only: ids_positioned_lane)
  then have "find_node (positioned_lane lc ns g) (n_id A) \<noteq> None"
    by (simp only: find_node_None) simp
  then obtain pa where pa: "find_node (positioned_lane lc ns g) (n_id A) = Some pa"
    by (cases "find_node (positioned_lane lc ns g) (n_id A)") simp_all
  with find_node_Some [OF pa] show ?thesis by blast
qed

lemma find_orchestration:
  assumes "A \<in> set ns" "n_group A = orchestration"
  shows "\<exists>pa. find_node (positioned lc ns) (n_id A) = Some pa
              \<and> pa \<in> set (positioned_lane lc ns orchestration)"
proof -
  from find_node_in_lane [OF assms, of lc] obtain pa
    where pa: "find_node (positioned_lane lc ns orchestration) (n_id A) = Some pa"
      "pa \<in> set (positioned_lane lc ns orchestration)"
    by blast
  from pa(1) have "find_node (positioned lc ns) (n_id A) = Some pa"
    by (simp add: positioned_lanes find_node_append)
  with pa(2) show ?thesis by blast
qed

lemma find_analysis:
  assumes "B \<in> set ns" "n_group B = analysis"
    and "\<not> list_ex (\<lambda>n. n_group n = orchestration \<and> n_id n = n_id B) ns"
  shows "\<exists>pb. find_node (positioned lc ns) (n_id B) = Some pb
              \<and> pb \<in> set (positioned_lane lc ns analysis)"
proof -
  from assms(3) have "n_id B \<notin> n_id ` {n \<in> set ns. n_group n = orchestration}"
    by (auto simp: list_ex_iff)
  then have "n_id B \<notin> n_id ` set (positioned_lane lc ns orchestration)"
    by (simp only: ids_positioned_lane) simp
  then have none: "find_node (positioned_lane lc ns orchestration) (n_id B) = None"
    by (simp only: find_node_None) simp
  from find_node_in_lane [OF assms(1,2), of lc] obtain pb
    where pb: "find_node (positioned_lane lc ns analysis) (n_id B) = Some pb"
      "pb \<in> set (positioned_lane lc ns analysis)"
    by blast
  from none pb(1) have "find_node (positioned lc ns) (n_id B) = Some pb"
    by (simp add: positioned_lanes find_node_append)
  with pb(2) show ?thesis by blast
qed

lemma find_some_node:
  assumes "B \<in> set ns"
  shows "\<exists>pb. find_node (positioned lc ns) (n_id B) = Some pb"
proof -
  from assms have "n_id B \<in> n_id ` set (positioned lc ns)"
    by (simp add: ids_positioned)
  then have "find_node (positioned lc ns) (n_id B) \<noteq> None"
    by (simp only: find_node_None) simp
  then show ?thesis by (cases "find_node (positioned lc ns) (n_id B)") simp_all
qed

lemma distinct_no_orchestration_twin:
  assumes "distinct (map n_id ns)" "B \<in> set ns" "n_group B = analysis"
  shows "\<not> list_ex (\<lambda>n. n_group n = orchestration \<and> n_id n = n_id B) ns"
proof
  assume "list_ex (\<lambda>n. n_group n = orchestration \<and> n_id n = n_id B) ns"
  then obtain n where n: "n \<in> set ns" "n_group n = orchestration" "n_id n = n_id B"
    by (auto simp: list_ex_iff)
  from assms(1,2) n(1,3) have "n = B" by (meson distinct_map inj_on_eq_iff)
  with n(2) assms(3) show False by simp
qed

lemma find_node_distinct:
  assumes "distinct (map n_id ns)" "A \<in> set ns" "find_node (positioned lc ns) (n_id A) = Some pa"
  shows "AgentNode.truncate pa = A"
proof -
  from find_node_Some [OF assms(3)] have pa: "pa \<in> set (positioned lc ns)" "n_id pa = n_id A"
    by simp_all
  from pa(1) have "AgentNode.truncate pa \<in> AgentNode.truncate ` set (positioned lc ns)"
    by (rule imageI)
  then have "AgentNode.truncate pa \<in> set ns" by (simp only: truncate_set_positioned)
  moreover from pa(2) have "n_id (AgentNode.truncate pa) = n_id A" by (simp add: n_id_truncate)
  ultimately show ?thesis using assms(1,2) by (meson distinct_map inj_on_eq_iff)
qed

lemma place_edges_mem:
  "e \<in> set es \<Longrightarrow> find_node ps (e_from e) = Some a \<Longrightarrow> find_node ps (e_to e) = Some b \<Longrightarrow>
     AgentEdge.extend e (PositionedEdge.fields (p_x a + 200) (p_y a + 48) (p_x b) (p_y b + 48))
       \<in> set (place_edges ps es)"
  by (induction es) (auto split: option.splits)

lemma extend_edge_simps:
  "AgentEdge.truncate (AgentEdge.extend e (PositionedEdge.fields a b c d)) = e"
  "p_x1 (AgentEdge.extend e (PositionedEdge.fields a b c d)) = a"
  "p_y1 (AgentEdge.extend e (PositionedEdge.fields a b c d)) = b"
  "p_x2 (AgentEdge.extend e (PositionedEdge.fields a b c d)) = c"
  "p_y2 (AgentEdge.extend e (PositionedEdge.fields a b c d)) = d"
  by (simp_all add: AgentEdge.defs PositionedEdge.defs)

lemma lane_x_values: "lane_x orchestration = 120" "lane_x analysis = 380"
  by (simp_all add: lane_x_def laneX_values)

lemma truncate_layout_edges:
  "map AgentEdge.truncate (l_edges (computeLayout lc g)) = filter (resolves g) (edges g)"
proof -
  have "resolves g = (\<lambda>e. e_from e \<in> n_id ` set (positioned lc (nodes g)) \<and>
                         e_to e \<in> n_id ` set (positioned lc (nodes g)))"
    by (simp add: resolves_def node_ids_def ids_positioned fun_eq_iff)
  then show ?thesis
    by (simp add: computeLayout_eq truncate_place_edges)
qed

section \<open>Claims about the layout engine\<close>

text \<open>
  C4. For every graph, the edges of the layout are exactly the edges of the graph whose
  \<open>from\<close> and \<open>to\<close> ids both belong to some node, in their original order and with
  their own fields; the others are left out, and the layout is computed all the same.
  Each edge kept starts at the right border of the node found for its \<open>from\<close> id
  (\<open>x + 200\<close>, \<open>y + 48\<close>) and ends at the left border of the node found for its
  \<open>to\<close> id (\<open>x\<close>, \<open>y + 48\<close>).
\<close>

theorem computeLayout_dangling_edges:
  "map AgentEdge.truncate (l_edges (computeLayout lc g)) = filter (resolves g) (edges g) \<and>
   (\<forall>pe \<in> set (l_edges (computeLayout lc g)).
      \<exists>a b. find_node (positionedNodes (computeLayout lc g)) (e_from pe) = Some a \<and>
            find_node (positionedNodes (computeLayout lc g)) (e_to pe) = Some b \<and>
            p_x1 pe = p_x a + 200 \<and> p_y1 pe = p_y a + 48 \<and>
            p_x2 pe = p_x b \<and> p_y2 pe = p_y b + 48)"
proof
  show "map AgentEdge.truncate (l_edges (computeLayout lc g)) = filter (resolves g) (edges g)"
    by (rule truncate_layout_edges)
next
  show "\<forall>pe \<in> set (l_edges (computeLayout lc g)).
      \<exists>a b. find_node (positionedNodes (computeLayout lc g)) (e_from pe) = Some a \<and>
            find_node (positionedNodes (computeLayout lc g)) (e_to pe) = Some b \<and>
            p_x1 pe = p_x a + 200 \<and> p_y1 pe = p_y a + 48 \<and>
            p_x2 pe = p_x b \<and> p_y2 pe = p_y b + 48"
  proof
    fix pe
    assume "pe \<in> set (l_edges (computeLayout lc g))"
    then have "pe \<in> set (place_edges (positioned lc (nodes g)) (edges g))"
      by (simp add: computeLayout_eq)
    from place_edges_coords [OF this]
    show "\<exists>a b. find_node (positionedNodes (computeLayout lc g)) (e_from pe) = Some a \<and>
            find_node (positionedNodes (computeLayout lc g)) (e_to pe) = Some b \<and>
            p_x1 pe = p_x a + 200 \<and> p_y1 pe = p_y a + 48 \<and>
            p_x2 pe = p_x b \<and> p_y2 pe = p_y b + 48"
      by (simp add: computeLayout_eq)
  qed
qed

theorem computeLayout_dangling_edges_witness:
  "map AgentEdge.truncate (l_edges (computeLayout code_unit_compare demo_graph))
     = [mk_edge ''a0'' ''b1'' ''run'' None, mk_edge ''b1'' ''a2'' ''next'' None] \<and>
   map (\<lambda>pe. (p_x1 pe, p_y1 pe, p_x2 pe, p_y2 pe))
       (l_edges (computeLayout code_unit_compare demo_graph))
     = [(320, 168, 380, 328), (580, 328, 380, 168)] \<and>
   l_edges (computeLayout code_unit_compare demo_graph) ! 0
     \<in> set (l_edges (computeLayout code_unit_compare demo_graph)) \<and>
   (\<exists>a b. find_node (positionedNodes (computeLayout code_unit_compare demo_graph))
              (e_from (l_edges (computeLayout code_unit_compare demo_graph) ! 0)) = Some a \<and>
          find_node (positionedNodes (computeLayout code_unit_compare demo_graph))
              (e_to (l_edges (computeLayout code_unit_compare demo_graph) ! 0)) = Some b \<and>
          p_x1 (l_edges (computeLayout code_unit_compare demo_graph) ! 0) = p_x a + 200 \<and>
          p_y1 (l_edges (computeLayout code_unit_compare demo_graph) ! 0) = p_y a + 48 \<and>
          p_x2 (l_edges (computeLayout code_unit_compare demo_graph) ! 0) = p_x b \<and>
          p_y2 (l_edges (computeLayout code_unit_compare demo_graph) ! 0) = p_y b + 48)"
proof -
  note th = computeLayout_dangling_edges [of code_unit_compare demo_graph]
  have "filter (resolves demo_graph) (edges demo_graph)
          = [mk_edge ''a0'' ''b1'' ''run'' None, mk_edge ''b1'' ''a2'' ''next'' None]"
    by code_simp
  with th have 1: "map AgentEdge.truncate (l_edges (computeLayout code_unit_compare demo_graph))
     = [mk_edge ''a0'' ''b1'' ''run'' None, mk_edge ''b1'' ''a2'' ''next'' None]"
    by simp
  have 2: "map (\<lambda>pe. (p_x1 pe, p_y1 pe, p_x2 pe, p_y2 pe))
       (l_edges (computeLayout code_unit_compare demo_graph))
     = [(320, 168, 380, 328), (580, 328, 380, 168)]"
    by code_simp
  from 1 [THEN arg_cong, of length]
  have "0 < length (l_edges (computeLayout code_unit_compare demo_graph))" by simp
  then have 3: "l_edges (computeLayout code_unit_compare demo_graph) ! 0
     \<in> set (l_edges (computeLayout code_unit_compare demo_graph))"
    by (rule nth_mem)
  note 4 = th [THEN conjunct2, THEN bspec, OF 3]
  show ?thesis by (rule conjI [OF 1 conjI [OF 2 conjI [OF 3 4]]])
qed

text \<open>
  C5. For every graph and lane, when \<open>localeCompare\<close> is a consistent comparison: the
  nodes of the lane appear in ascending order of display name; nodes whose names compare
  equal keep the order they have in the input; the node at sorted index \<open>i\<close> gets the
  vertical offset \<open>120 + 160 * i\<close>, so the offsets increase strictly with the index and
  no two nodes of a lane share one.
\<close>

theorem computeLayout_lane_order:
  assumes "consistent_comparator lc"
  shows "sorted_wrt (\<lambda>a b. lc (n_name a) (n_name b) \<le> 0) (lane_of (computeLayout lc gr) g) \<and>
         (\<forall>k. filter (\<lambda>n. lc (n_name n) k = 0) (map AgentNode.truncate (lane_of (computeLayout lc gr) g))
              = filter (\<lambda>n. lc (n_name n) k = 0) (filter (\<lambda>n. n_group n = g) (nodes gr))) \<and>
         map p_y (lane_of (computeLayout lc gr) g)
            = map (\<lambda>i. 120 + 160 * int i) [0..<length (lane_of (computeLayout lc gr) g)] \<and>
         sorted_wrt (<) (map p_y (lane_of (computeLayout lc gr) g)) \<and>
         distinct (map p_y (lane_of (computeLayout lc gr) g))"
proof -
  let ?lane = "lane_of (computeLayout lc gr) g"
  let ?in = "filter (\<lambda>n. n_group n = g) (nodes gr)"
  have lane: "?lane = positioned_lane lc (nodes gr) g"
    by (simp add: lane_of_def computeLayout_eq lane_of_positioned)
  have tr: "map AgentNode.truncate ?lane = array_sort (by_name lc) ?in"
    by (simp add: lane truncate_positioned_lane lane_nodes_def)
  have "sorted_wrt (\<lambda>a b. by_name lc a b \<le> 0) (map AgentNode.truncate ?lane)"
    unfolding tr using assms by (intro sorted_array_sort consistent_by_name)
  then have s: "sorted_wrt (\<lambda>a b. lc (n_name a) (n_name b) \<le> 0) ?lane"
    by (simp add: sorted_wrt_map by_name_def AgentNode.defs)
  have st: "filter (\<lambda>n. lc (n_name n) k = 0) (map AgentNode.truncate ?lane)
              = filter (\<lambda>n. lc (n_name n) k = 0) ?in" for k
    unfolding tr
    by (rule filter_array_sort) (simp add: by_name_def consistent_equiv_le [OF assms])
  have len: "length ?lane = length (lane_nodes lc (nodes gr) g)"
    using truncate_positioned_lane [of lc "nodes gr" g, THEN arg_cong, of length]
    by (simp add: lane)
  have y: "map p_y ?lane = map (\<lambda>i. 120 + 160 * int i) [0..<length ?lane]"
    by (simp add: len) (simp add: lane p_y_positioned_lane mult.commute)
  have inc: "sorted_wrt (<) (map p_y ?lane)"
    unfolding y by (simp add: sorted_wrt_map sorted_wrt_upt [unfolded sorted_wrt_iff_nth_less] sorted_wrt_iff_nth_less)
  then have "distinct (map p_y ?lane)"
    using strict_sorted_iff by blast
  from st have "\<forall>k. filter (\<lambda>n. lc (n_name n) k = 0) (map AgentNode.truncate ?lane)
              = filter (\<lambda>n. lc (n_name n) k = 0) ?in" by (rule allI)
  with s y inc \<open>distinct (map p_y ?lane)\<close> show ?thesis by (intro conjI)
qed

theorem computeLayout_lane_order_witness:
  "consistent_comparator code_unit_compare \<and>
   map n_id (lane_of (computeLayout code_unit_compare demo_graph) analysis) = [''a2'', ''b1'', ''b3''] \<and>
   map p_y (lane_of (computeLayout code_unit_compare demo_graph) analysis) = [120, 280, 440] \<and>
   sorted_wrt (\<lambda>a b. code_unit_compare (n_name a) (n_name b) \<le> 0)
     (lane_of (computeLayout code_unit_compare demo_graph) analysis) \<and>
   distinct (map p_y (lane_of (computeLayout code_unit_compare demo_graph) analysis))"
proof (intro conjI)
  note th = computeLayout_lane_order [OF consistent_code_unit_compare, of demo_graph analysis]
  show "consistent_comparator code_unit_compare" by (rule consistent_code_unit_compare)
  show "map n_id (lane_of (computeLayout code_unit_compare demo_graph) analysis) = [''a2'', ''b1'', ''b3'']"
    by code_simp
  show "map p_y (lane_of (computeLayout code_unit_compare demo_graph) analysis) = [120, 280, 440]"
    by code_simp
  from th show "sorted_wrt (\<lambda>a b. code_unit_compare (n_name a) (n_name b) \<le> 0)
     (lane_of (computeLayout code_unit_compare demo_graph) analysis)"
    by (rule conjunct1)
  from th show "distinct (map p_y (lane_of (computeLayout code_unit_compare demo_graph) analysis))"
    by (elim conjE)
qed

text \<open>
  C6, as amended. For every graph with a node \<open>A\<close> of group orchestration, a node \<open>B\<close>
  of group analysis and an edge from \<open>A\<close>'s id to \<open>B\<close>'s id: the lanes have the offsets
  120, 380, 640, 900, 1160 in the order orchestration, analysis, generation, media,
  progress, so \<open>A\<close>'s lane is to the left of \<open>B\<close>'s; the edge is in the layout and starts
  at the node found for \<open>A\<close>'s id, which is in the orchestration lane, at \<open>x = 320\<close>, at
  most the offset 380 of \<open>B\<close>'s lane. The edge ends at the offset of the node found for
  \<open>B\<close>'s id; that is \<open>B\<close>'s lane offset 380 when no orchestration node carries \<open>B\<close>'s
  id, in particular when the node ids are pairwise distinct, and then the nodes found
  are \<open>A\<close> and \<open>B\<close> themselves.
\<close>

theorem computeLayout_orchestration_before_analysis:
  assumes "A \<in> set (nodes g)" and "n_group A = orchestration"
    and "B \<in> set (nodes g)" and "n_group B = analysis"
    and "e \<in> set (edges g)" and "e_from e = n_id A" and "e_to e = n_id B"
  shows "map laneX laneOrder = [Some 120, Some 380, Some 640, Some 900, Some 1160] \<and>
    (\<exists>pa pb pe.
      find_node (positionedNodes (computeLayout lc g)) (n_id A) = Some pa \<and>
      n_group pa = orchestration \<and> laneX orchestration = Some (p_x pa) \<and>
      find_node (positionedNodes (computeLayout lc g)) (n_id B) = Some pb \<and>
      pe \<in> set (l_edges (computeLayout lc g)) \<and> AgentEdge.truncate pe = e \<and>
      p_x1 pe = p_x pa + 200 \<and> p_x2 pe = p_x pb \<and>
      laneX analysis = Some 380 \<and> p_x pa < 380 \<and> p_x1 pe \<le> 380 \<and>
      (\<not> list_ex (\<lambda>n. n_group n = orchestration \<and> n_id n = n_id B) (nodes g)
         \<longrightarrow> n_group pb = analysis \<and> p_x2 pe = 380 \<and> p_x1 pe \<le> p_x2 pe) \<and>
      (distinct (map n_id (nodes g))
         \<longrightarrow> AgentNode.truncate pa = A \<and> AgentNode.truncate pb = B \<and>
             p_x2 pe = 380 \<and> p_x1 pe \<le> p_x2 pe))"
proof
  show "map laneX laneOrder = [Some 120, Some 380, Some 640, Some 900, Some 1160]"
    by (simp add: laneOrder_def laneX_values)
next
  let ?ps = "positioned lc (nodes g)"
  from find_orchestration [OF assms(1,2), of lc] obtain pa
    where pa: "find_node ?ps (n_id A) = Some pa" "pa \<in> set (positioned_lane lc (nodes g) orchestration)"
    by blast
  from in_positioned_lane [OF pa(2)] have pa_lane: "n_group pa = orchestration" "p_x pa = 120"
    by (simp_all add: lane_x_values)
  from find_some_node [OF assms(3), of lc] obtain pb
    where pb: "find_node ?ps (n_id B) = Some pb"
    by blast
  define pe where
    "pe = AgentEdge.extend e (PositionedEdge.fields (p_x pa + 200) (p_y pa + 48) (p_x pb) (p_y pb + 48))"
  have mem: "pe \<in> set (place_edges ?ps (edges g))"
    unfolding pe_def using assms(5) pa(1) pb
    by (intro place_edges_mem) (simp_all add: assms(6,7))
  have twin: "n_group pb = analysis \<and> p_x2 pe = 380 \<and> p_x1 pe \<le> p_x2 pe"
    if h: "\<not> list_ex (\<lambda>n. n_group n = orchestration \<and> n_id n = n_id B) (nodes g)"
  proof -
    from find_analysis [OF assms(3,4) h, of lc] pb
    have "pb \<in> set (positioned_lane lc (nodes g) analysis)" by simp
    from in_positioned_lane [OF this] have "n_group pb = analysis" "p_x pb = 380"
      by (simp_all add: lane_x_values)
    with pa_lane show ?thesis by (simp add: pe_def extend_edge_simps)
  qed
  have dist: "AgentNode.truncate pa = A \<and> AgentNode.truncate pb = B \<and>
             p_x2 pe = 380 \<and> p_x1 pe \<le> p_x2 pe"
    if d: "distinct (map n_id (nodes g))"
  proof -
    from twin [OF distinct_no_orchestration_twin [OF d assms(3,4)]]
    have "p_x2 pe = 380 \<and> p_x1 pe \<le> p_x2 pe" by simp
    with find_node_distinct [OF d assms(1) pa(1)] find_node_distinct [OF d assms(3) pb]
    show ?thesis by simp
  qed
  have "find_node (positionedNodes (computeLayout lc g)) (n_id A) = Some pa \<and>
      n_group pa = orchestration \<and> laneX orchestration = Some (p_x pa) \<and>
      find_node (positionedNodes (computeLayout lc g)) (n_id B) = Some pb \<and>
      pe \<in> set (l_edges (computeLayout lc g)) \<and> AgentEdge.truncate pe = e \<and>
      p_x1 pe = p_x pa + 200 \<and> p_x2 pe = p_x pb \<and>
      laneX analysis = Some 380 \<and> p_x pa < 380 \<and> p_x1 pe \<le> 380 \<and>
      (\<not> list_ex (\<lambda>n. n_group n = orchestration \<and> n_id n = n_id B) (nodes g)
         \<longrightarrow> n_group pb = analysis \<and> p_x2 pe = 380 \<and> p_x1 pe \<le> p_x2 pe) \<and>
      (distinct (map n_id (nodes g))
         \<longrightarrow> AgentNode.truncate pa = A \<and> AgentNode.truncate pb = B \<and>
             p_x2 pe = 380 \<and> p_x1 pe \<le> p_x2 pe)"
    using pa(1) pb pa_lane mem twin dist
    by (simp add: computeLayout_eq laneX_values) (simp add: pe_def extend_edge_simps)
  then show "\<exists>pa pb pe.
      find_node (positionedNodes (computeLayout lc g)) (n_id A) = Some pa \<and>
      n_group pa = orchestration \<and> laneX orchestration = Some (p_x pa) \<and>
      find_node (positionedNodes (computeLayout lc g)) (n_id B) = Some pb \<and>
      pe \<in> set (l_edges (computeLayout lc g)) \<and> AgentEdge.truncate pe = e \<and>
      p_x1 pe = p_x pa + 200 \<and> p_x2 pe = p_x pb \<and>
      laneX analysis = Some 380 \<and> p_x pa < 380 \<and> p_x1 pe \<le> 380 \<and>
      (\<not> list_ex (\<lambda>n. n_group n = orchestration \<and> n_id n = n_id B) (nodes g)
         \<longrightarrow> n_group pb = analysis \<and> p_x2 pe = 380 \<and> p_x1 pe \<le> p_x2 pe) \<and>
      (distinct (map n_id (nodes g))
         \<longrightarrow> AgentNode.truncate pa = A \<and> AgentNode.truncate pb = B \<and>
             p_x2 pe = 380 \<and> p_x1 pe \<le> p_x2 pe)"
    by (intro exI)
qed

theorem computeLayout_orchestration_before_analysis_witness:
  "static_nodes ! 0 \<in> set (nodes getAgentGraph) \<and> n_group (static_nodes ! 0) = orchestration \<and>
   static_nodes ! 3 \<in> set (nodes getAgentGraph) \<and> n_group (static_nodes ! 3) = analysis \<and>
   static_edges ! 0 \<in> set (edges getAgentGraph) \<and>
   e_from (static_edges ! 0) = n_id (static_nodes ! 0) \<and>
   e_to (static_edges ! 0) = n_id (static_nodes ! 3) \<and>
   distinct (map n_id (nodes getAgentGraph)) \<and>
   (\<exists>pa pb pe.
      find_node (positionedNodes (computeLayout code_unit_compare getAgentGraph))
        (n_id (static_nodes ! 0)) = Some pa \<and>
      AgentNode.truncate pa = static_nodes ! 0 \<and> p_x pa = 120 \<and>
      find_node (positionedNodes (computeLayout code_unit_compare getAgentGraph))
        (n_id (static_nodes ! 3)) = Some pb \<and>
      AgentNode.truncate pb = static_nodes ! 3 \<and> p_x pb = 380 \<and>
      pe \<in> set (l_edges (computeLayout code_unit_compare getAgentGraph)) \<and>
      AgentEdge.truncate pe = static_edges ! 0 \<and>
      p_x1 pe = 320 \<and> p_x2 pe = 380)"
proof -
  have h2: "static_nodes ! 0 \<in> set (nodes getAgentGraph)" by code_simp
  have h3: "n_group (static_nodes ! 0) = orchestration" by code_simp
  have h4: "static_nodes ! 3 \<in> set (nodes getAgentGraph)" by code_simp
  have h5: "n_group (static_nodes ! 3) = analysis" by code_simp
  have h6: "static_edges ! 0 \<in> set (edges getAgentGraph)" by code_simp
  have h7: "e_from (static_edges ! 0) = n_id (static_nodes ! 0)" by code_simp
  have h8: "e_to (static_edges ! 0) = n_id (static_nodes ! 3)" by code_simp
  have d: "distinct (map n_id (nodes getAgentGraph))" by code_simp
  from computeLayout_orchestration_before_analysis
         [OF h2 h3 h4 h5 h6 h7 h8, of code_unit_compare, THEN conjunct2]
  obtain pa pb pe where r:
    "find_node (positionedNodes (computeLayout code_unit_compare getAgentGraph))
        (n_id (static_nodes ! 0)) = Some pa"
    "laneX orchestration = Some (p_x pa)"
    "find_node (positionedNodes (computeLayout code_unit_compare getAgentGraph))
        (n_id (static_nodes ! 3)) = Some pb"
    "pe \<in> set (l_edges (computeLayout code_unit_compare getAgentGraph))"
    "AgentEdge.truncate pe = static_edges ! 0"
    "p_x1 pe = p_x pa + 200" "p_x2 pe = p_x pb"
    "distinct (map n_id (nodes getAgentGraph))
         \<longrightarrow> AgentNode.truncate pa = static_nodes ! 0 \<and> AgentNode.truncate pb = static_nodes ! 3 \<and>
             p_x2 pe = 380 \<and> p_x1 pe \<le> p_x2 pe"
    by blast
  from r(8) d have t: "AgentNode.truncate pa = static_nodes ! 0" "AgentNode.truncate pb = static_nodes ! 3"
    "p_x2 pe = 380"
    by simp_all
  from r(2) have x: "p_x pa = 120" by (simp add: laneX_values)
  have ex: "\<exists>pa pb pe.
      find_node (positionedNodes (computeLayout code_unit_compare getAgentGraph))
        (n_id (static_nodes ! 0)) = Some pa \<and>
      AgentNode.truncate pa = static_nodes ! 0 \<and> p_x pa = 120 \<and>
      find_node (positionedNodes (computeLayout code_unit_compare getAgentGraph))
        (n_id (static_nodes ! 3)) = Some pb \<and>
      AgentNode.truncate pb = static_nodes ! 3 \<and> p_x pb = 380 \<and>
      pe \<in> set (l_edges (computeLayout code_unit_compare getAgentGraph)) \<and>
      AgentEdge.truncate pe = static_edges ! 0 \<and>
      p_x1 pe = 320 \<and> p_x2 pe = 380"
    apply (rule exI [of _ pa])
    apply (rule exI [of _ pb])
    apply (rule exI [of _ pe])
    using r(1,3,4,5,6,7) t x apply simp
    done
  show ?thesis
    by (rule conjI [OF h2 conjI [OF h3 conjI [OF h4 conjI [OF h5 conjI [OF h6 conjI [OF h7
          conjI [OF h8 conjI [OF d ex]]]]]]]])
qed

text \<open>
  C6 as stated fails: in a graph where an orchestration node has the same id as the
  analysis node \<open>B\<close>, the edge from \<open>A\<close> to that id starts at \<open>x = 320\<close> and ends at
  \<open>x = 120\<close>, not at the offset 380 of \<open>B\<close>'s lane.
\<close>

theorem computeLayout_orchestration_before_analysis_counterexample:
  "nodes dup_graph ! 0 \<in> set (nodes dup_graph) \<and> n_group (nodes dup_graph ! 0) = orchestration \<and>
   nodes dup_graph ! 1 \<in> set (nodes dup_graph) \<and> n_group (nodes dup_graph ! 1) = analysis \<and>
   edges dup_graph ! 0 \<in> set (edges dup_graph) \<and>
   e_from (edges dup_graph ! 0) = n_id (nodes dup_graph ! 0) \<and>
   e_to (edges dup_graph ! 0) = n_id (nodes dup_graph ! 1) \<and>
   laneX analysis = Some 380 \<and>
   map (\<lambda>pe. (p_x1 pe, p_x2 pe)) (l_edges (computeLayout code_unit_compare dup_graph))
     = [(320, 120)]"
  by code_simp

text \<open>
  C9. In the built-in graph every edge has both its ids among the node ids, so the
  layout of the built-in graph keeps all ten edges, whatever the comparison.
\<close>

theorem static_graph_edges_resolve:
  "list_all (resolves getAgentGraph) (edges getAgentGraph) \<and>
   map AgentEdge.truncate (l_edges (computeLayout lc getAgentGraph)) = edges getAgentGraph \<and>
   length (l_edges (computeLayout lc getAgentGraph)) = 10"
proof -
  have a: "list_all (resolves getAgentGraph) (edges getAgentGraph)" by code_simp
  then have "filter (resolves getAgentGraph) (edges getAgentGraph) = edges getAgentGraph"
    by (simp add: filter_id_conv list_all_iff)
  then have b: "map AgentEdge.truncate (l_edges (computeLayout lc getAgentGraph)) = edges getAgentGraph"
    by (simp add: truncate_layout_edges)
  have "length (edges getAgentGraph) = 10" by code_simp
  with b [THEN arg_cong, of length] have "length (l_edges (computeLayout lc getAgentGraph)) = 10"
    by simp
  with a b show ?thesis by (intro conjI)
qed

section \<open>Claims about the correlation engine\<close>

lemma veo_message_rules:
  "regex_test [''voice''] False (toLowerCase veo_message) = False"
  "regex_test [''analyz'', ''image''] True (toLowerCase veo_message) = False"
  "regex_test [''cultural'', ''culture''] True (toLowerCase veo_message) = False"
  "regex_test [''image'', ''imagen''] True (toLowerCase veo_message) = False"
  "regex_test [''video'', ''veo'', ''operation'', ''download''] True (toLowerCase veo_message) = True"
  by code_simp+

lemma match_pairs_veo_message:
  "match_pairs (map node_pair ns) (toLowerCase veo_message) = map_option n_id (find veo_keyed ns)"
  by (induction ns) (simp_all add: node_pair_def veo_message_rules veo_keyed_def)

lemma find_first:
  "\<forall>n \<in> set pre. \<not> P n \<Longrightarrow> P v \<Longrightarrow> find P (pre @ v # post) = Some v"
  by (induction pre) simp_all

lemma veo_generate_keyed: "n_name v = ''Veo Generate'' \<Longrightarrow> veo_keyed v"
proof -
  assume "n_name v = ''Veo Generate''"
  moreover have "str_includes (toLowerCase ''Veo Generate'') ''veo''" by code_simp
  ultimately show ?thesis by (simp add: veo_keyed_def some_key_def)
qed

text \<open>
  C3, as amended. For every graph, correlating the message ``Generating video with veo,
  please wait'' returns the id of the first node, in the order of the node list, whose
  name, path or id contains ``veo'' when lower-cased, and no match if there is none. For
  a graph containing a node named ``Veo Generate'' this is that node's id when no node
  before it has such a name, path or id, as in the built-in graph.
\<close>

theorem matchAgentByMessage_veo_first:
  "matchAgentByMessage g veo_message = map_option n_id (find veo_keyed (nodes g)) \<and>
   (nodes g = pre @ v # post \<and> n_name v = ''Veo Generate'' \<and> list_all (\<lambda>n. \<not> veo_keyed n) pre
      \<longrightarrow> matchAgentByMessage g veo_message = Some (n_id v))"
proof
  show a: "matchAgentByMessage g veo_message = map_option n_id (find veo_keyed (nodes g))"
    by (simp add: matchAgentByMessage_def match_pairs_veo_message)
  show "nodes g = pre @ v # post \<and> n_name v = ''Veo Generate'' \<and> list_all (\<lambda>n. \<not> veo_keyed n) pre
      \<longrightarrow> matchAgentByMessage g veo_message = Some (n_id v)"
  proof
    assume h: "nodes g = pre @ v # post \<and> n_name v = ''Veo Generate'' \<and> list_all (\<lambda>n. \<not> veo_keyed n) pre"
    then have "find veo_keyed (pre @ v # post) = Some v"
      by (intro find_first) (simp_all add: list_all_iff veo_generate_keyed)
    with h a show "matchAgentByMessage g veo_message = Some (n_id v)" by simp
  qed
qed

theorem matchAgentByMessage_veo_first_witness:
  "nodes getAgentGraph = take 7 static_nodes @ static_nodes ! 7 # drop 8 static_nodes \<and>
   n_name (static_nodes ! 7) = ''Veo Generate'' \<and>
   list_all (\<lambda>n. \<not> veo_keyed n) (take 7 static_nodes) \<and>
   n_id (static_nodes ! 7) = ''veo.generate'' \<and>
   matchAgentByMessage getAgentGraph veo_message = Some ''veo.generate''"
proof -
  have h1: "nodes getAgentGraph = take 7 static_nodes @ static_nodes ! 7 # drop 8 static_nodes"
    by code_simp
  have h2: "n_name (static_nodes ! 7) = ''Veo Generate''" by code_simp
  have h3: "list_all (\<lambda>n. \<not> veo_keyed n) (take 7 static_nodes)" by code_simp
  have h4: "n_id (static_nodes ! 7) = ''veo.generate''" by code_simp
  have "matchAgentByMessage getAgentGraph veo_message = Some (n_id (static_nodes ! 7))"
    by (rule matchAgentByMessage_veo_first
              [of getAgentGraph "take 7 static_nodes" "static_nodes ! 7" "drop 8 static_nodes",
               THEN conjunct2, THEN mp])
       (intro conjI h1 h2 h3)
  then have h5: "matchAgentByMessage getAgentGraph veo_message = Some ''veo.generate''"
    by (simp only: h4)
  from h1 h2 h3 h4 h5 show ?thesis by (intro conjI)
qed

text \<open>
  C3 as stated fails: in the graph made of the built-in nodes ``Veo Operation'' and
  ``Veo Generate'', in this order, the message is correlated to \<open>veo.operation\<close>.
\<close>

theorem matchAgentByMessage_veo_counterexample:
  "static_nodes ! 7 \<in> set (nodes veo_swapped_graph) \<and>
   n_name (static_nodes ! 7) = ''Veo Generate'' \<and>
   n_id (static_nodes ! 7) = ''veo.generate'' \<and>
   n_path (static_nodes ! 7) = ''/api/veo/generate'' \<and>
   matchAgentByMessage veo_swapped_graph veo_message = Some ''veo.operation'' \<and>
   matchAgentByMessage veo_swapped_graph veo_message \<noteq> Some (n_id (static_nodes ! 7))"
  by code_simp

text \<open>
  C8. The result of the correlation function is determined by its inputs, and of those
  by the ids, names and paths of the nodes in order and by the lower-cased message:
  two calls that agree on these return the same id, or both return no match. Two calls
  with the same graph and text are a special case.
\<close>

theorem matchAgentByMessage_deterministic:
  assumes "map (\<lambda>n. (n_id n, n_name n, n_path n)) (nodes g1)
             = map (\<lambda>n. (n_id n, n_name n, n_path n)) (nodes g2)"
    and "toLowerCase m1 = toLowerCase m2"
  shows "matchAgentByMessage g1 m1 = matchAgentByMessage g2 m2"
proof -
  have pair: "map node_pair ns
                = map (\<lambda>(i, nm, p). (i, [nm, p, i])) (map (\<lambda>n. (n_id n, n_name n, n_path n)) ns)"
    for ns
    by (simp add: node_pair_def)
  have "map node_pair (nodes g1) = map node_pair (nodes g2)"
    by (simp only: pair assms(1))
  with assms(2) show ?thesis
    by (simp add: matchAgentByMessage_def)
qed

theorem matchAgentByMessage_deterministic_witness:
  "map (\<lambda>n. (n_id n, n_name n, n_path n)) (nodes getAgentGraph)
     = map (\<lambda>n. (n_id n, n_name n, n_path n)) (nodes (getAgentGraph\<lparr>edges := []\<rparr>)) \<and>
   toLowerCase ''VEO download'' = toLowerCase ''veo download'' \<and>
   matchAgentByMessage getAgentGraph ''VEO download''
     = matchAgentByMessage (getAgentGraph\<lparr>edges := []\<rparr>) ''veo download'' \<and>
   matchAgentByMessage getAgentGraph ''VEO download'' = Some ''veo.generate''"
proof -
  have h1: "map (\<lambda>n. (n_id n, n_name n, n_path n)) (nodes getAgentGraph)
     = map (\<lambda>n. (n_id n, n_name n, n_path n)) (nodes (getAgentGraph\<lparr>edges := []\<rparr>))"
    by simp
  have h2: "toLowerCase ''VEO download'' = toLowerCase ''veo download''" by code_simp
  have h3: "matchAgentByMessage getAgentGraph ''VEO download'' = Some ''veo.generate''"
    by code_simp
  show ?thesis
    by (rule conjI [OF h1 conjI [OF h2 conjI [OF matchAgentByMessage_deterministic [OF h1 h2] h3]]])
qed

lemma match_pairs_head:
  "match_pairs ((i, keys) # ps) m =
     (if rule_voice keys m then Some ''voice.run''
      else if rule_vision keys m then Some ''vision.analyze''
      else if rule_cultural keys m then Some ''cultural.intelligence''
      else if rule_imagen keys m then Some ''imagen.generate''
      else if rule_veo keys m then Some i
      else match_pairs ps m)"
  by (simp add: rule_voice_def rule_vision_def rule_cultural_def rule_imagen_def rule_veo_def)

lemma node_pair_keys: "node_pair n = (n_id n, node_keys n)"
  by (simp add: node_pair_def node_keys_def)

lemma match_pairs_skip:
  "list_all (\<lambda>p. \<not> fires (node_keys p) m) pre \<Longrightarrow>
     match_pairs (map node_pair (pre @ rest)) m = match_pairs (map node_pair rest) m"
proof (induction pre)
  case Nil
  show ?case by simp
next
  case (Cons p pre)
  from Cons.prems have "\<not> fires (node_keys p) m" and "list_all (\<lambda>p. \<not> fires (node_keys p) m) pre"
    by simp_all
  with Cons.IH show ?case
    by (simp add: node_pair_keys match_pairs_head fires_def del: match_pairs.simps)
qed

lemma match_at_first_firing:
  assumes "nodes g = pre @ n # post"
    and "list_all (\<lambda>p. \<not> fires (node_keys p) (toLowerCase text)) pre"
  shows "matchAgentByMessage g text =
     (if rule_voice (node_keys n) (toLowerCase text) then Some ''voice.run''
      else if rule_vision (node_keys n) (toLowerCase text) then Some ''vision.analyze''
      else if rule_cultural (node_keys n) (toLowerCase text) then Some ''cultural.intelligence''
      else if rule_imagen (node_keys n) (toLowerCase text) then Some ''imagen.generate''
      else if rule_veo (node_keys n) (toLowerCase text) then Some (n_id n)
      else match_pairs (map node_pair post) (toLowerCase text))"
proof -
  have "matchAgentByMessage g text = match_pairs (map node_pair (pre @ n # post)) (toLowerCase text)"
    by (simp add: matchAgentByMessage_def assms(1))
  also have "\<dots> = match_pairs (map node_pair (n # post)) (toLowerCase text)"
    using assms(2) by (rule match_pairs_skip)
  also have "\<dots> = match_pairs ((n_id n, node_keys n) # map node_pair post) (toLowerCase text)"
    by (simp add: node_pair_keys del: match_pairs.simps)
  finally show ?thesis by (simp only: match_pairs_head)
qed

text \<open>
  C10, as amended. There are a graph and a message for which the correlation function
  returns an id that no node of the graph has. In every graph, at the first node in
  list order on which any rule fires, the first rule that fires decides: if it is one
  of the four rules with a fixed result, the function returns \<open>voice.run\<close>,
  \<open>vision.analyze\<close>, \<open>cultural.intelligence\<close> or \<open>imagen.generate\<close> respectively,
  whatever the ids of the nodes are. Each of the four does so on a graph whose only
  node has the id \<open>n1\<close>.
\<close>

theorem matchAgentByMessage_foreign_id:
  assumes "nodes g = pre @ n # post"
    and "list_all (\<lambda>p. \<not> fires (node_keys p) (toLowerCase text)) pre"
  shows
  "(rule_voice (node_keys n) (toLowerCase text)
      \<longrightarrow> matchAgentByMessage g text = Some ''voice.run'') \<and>
   (\<not> rule_voice (node_keys n) (toLowerCase text) \<and> rule_vision (node_keys n) (toLowerCase text)
      \<longrightarrow> matchAgentByMessage g text = Some ''vision.analyze'') \<and>
   (\<not> rule_voice (node_keys n) (toLowerCase text) \<and> \<not> rule_vision (node_keys n) (toLowerCase text)
      \<and> rule_cultural (node_keys n) (toLowerCase text)
      \<longrightarrow> matchAgentByMessage g text = Some ''cultural.intelligence'') \<and>
   (\<not> rule_voice (node_keys n) (toLowerCase text) \<and> \<not> rule_vision (node_keys n) (toLowerCase text)
      \<and> \<not> rule_cultural (node_keys n) (toLowerCase text)
      \<and> rule_imagen (node_keys n) (toLowerCase text)
      \<longrightarrow> matchAgentByMessage g text = Some ''imagen.generate'') \<and>
   (matchAgentByMessage (lone_graph ''Voice Run 2'') ''voice memo'' = Some ''voice.run''
      \<and> ''voice.run'' \<notin> node_ids (lone_graph ''Voice Run 2'')) \<and>
   (matchAgentByMessage (lone_graph ''Television'') ''Analyzing'' = Some ''vision.analyze''
      \<and> ''vision.analyze'' \<notin> node_ids (lone_graph ''Television'')) \<and>
   (matchAgentByMessage (lone_graph ''Agricultural'') ''Culture'' = Some ''cultural.intelligence''
      \<and> ''cultural.intelligence'' \<notin> node_ids (lone_graph ''Agricultural'')) \<and>
   (matchAgentByMessage (lone_graph ''Imagenet'') ''image ready'' = Some ''imagen.generate''
      \<and> ''imagen.generate'' \<notin> node_ids (lone_graph ''Imagenet'')) \<and>
   (\<exists>g m r. matchAgentByMessage g m = Some r \<and> r \<notin> node_ids g)"
proof -
  note first = match_at_first_firing [OF assms]
  have a: "rule_voice (node_keys n) (toLowerCase text)
      \<longrightarrow> matchAgentByMessage g text = Some ''voice.run''"
    by (simp add: first)
  have b: "\<not> rule_voice (node_keys n) (toLowerCase text) \<and> rule_vision (node_keys n) (toLowerCase text)
      \<longrightarrow> matchAgentByMessage g text = Some ''vision.analyze''"
    by (simp add: first)
  have c: "\<not> rule_voice (node_keys n) (toLowerCase text) \<and> \<not> rule_vision (node_keys n) (toLowerCase text)
      \<and> rule_cultural (node_keys n) (toLowerCase text)
      \<longrightarrow> matchAgentByMessage g text = Some ''cultural.intelligence''"
    by (simp add: first)
  have d: "\<not> rule_voice (node_keys n) (toLowerCase text) \<and> \<not> rule_vision (node_keys n) (toLowerCase text)
      \<and> \<not> rule_cultural (node_keys n) (toLowerCase text)
      \<and> rule_imagen (node_keys n) (toLowerCase text)
      \<longrightarrow> matchAgentByMessage g text = Some ''imagen.generate''"
    by (simp add: first)
  have 1: "matchAgentByMessage (lone_graph ''Voice Run 2'') ''voice memo'' = Some ''voice.run''
      \<and> ''voice.run'' \<notin> node_ids (lone_graph ''Voice Run 2'')" by code_simp
  have 2: "matchAgentByMessage (lone_graph ''Television'') ''Analyzing'' = Some ''vision.analyze''
      \<and> ''vision.analyze'' \<notin> node_ids (lone_graph ''Television'')" by code_simp
  have 3: "matchAgentByMessage (lone_graph ''Agricultural'') ''Culture'' = Some ''cultural.intelligence''
      \<and> ''cultural.intelligence'' \<notin> node_ids (lone_graph ''Agricultural'')" by code_simp
  have 4: "matchAgentByMessage (lone_graph ''Imagenet'') ''image ready'' = Some ''imagen.generate''
      \<and> ''imagen.generate'' \<notin> node_ids (lone_graph ''Imagenet'')" by code_simp
  from 1 have ex: "\<exists>g m r. matchAgentByMessage g m = Some r \<and> r \<notin> node_ids g" by (intro exI)
  show ?thesis
    by (rule conjI [OF a conjI [OF b conjI [OF c conjI [OF d
          conjI [OF 1 conjI [OF 2 conjI [OF 3 conjI [OF 4 ex]]]]]]]])
qed

theorem matchAgentByMessage_foreign_id_witness:
  "nodes foreign_graph = [static_nodes ! 1] @ (nodes foreign_graph ! 1) # [] \<and>
   list_all (\<lambda>p. \<not> fires (node_keys p) (toLowerCase ''Analyzing frame'')) [static_nodes ! 1] \<and>
   \<not> rule_voice (node_keys (nodes foreign_graph ! 1)) (toLowerCase ''Analyzing frame'') \<and>
   rule_vision (node_keys (nodes foreign_graph ! 1)) (toLowerCase ''Analyzing frame'') \<and>
   matchAgentByMessage foreign_graph ''Analyzing frame'' = Some ''vision.analyze'' \<and>
   ''vision.analyze'' \<notin> node_ids foreign_graph"
proof -
  have h1: "nodes foreign_graph = [static_nodes ! 1] @ (nodes foreign_graph ! 1) # []"
    by code_simp
  have h2: "list_all (\<lambda>p. \<not> fires (node_keys p) (toLowerCase ''Analyzing frame'')) [static_nodes ! 1]"
    by code_simp
  have h3: "\<not> rule_voice (node_keys (nodes foreign_graph ! 1)) (toLowerCase ''Analyzing frame'')"
    by code_simp
  have h4: "rule_vision (node_keys (nodes foreign_graph ! 1)) (toLowerCase ''Analyzing frame'')"
    by code_simp
  note r = matchAgentByMessage_foreign_id [OF h1 h2, THEN conjunct2, THEN conjunct1, THEN mp,
             OF conjI [OF h3 h4]]
  have h5: "''vision.analyze'' \<notin> node_ids foreign_graph" by code_simp
  show ?thesis
    by (rule conjI [OF h1 conjI [OF h2 conjI [OF h3 conjI [OF h4 conjI [OF r h5]]]]])
qed

text \<open>
  C10 as stated fails in its general clause: in the graph of the built-in nodes
  ``Vision Analyze'' and ``Voice Run'', in this order, the second node's name contains
  ``voice run'' and the message ``voice image'' matches the pattern of the voice rule,
  yet the result is \<open>vision.analyze\<close>, because the vision rule fires on the first node.
\<close>

theorem matchAgentByMessage_foreign_id_counterexample:
  "static_nodes ! 0 \<in> set (nodes clash_graph) \<and>
   some_key [n_name (static_nodes ! 0), n_path (static_nodes ! 0), n_id (static_nodes ! 0)]
     ''voice run'' \<and>
   regex_test [''voice''] False (toLowerCase ''voice image'') \<and>
   matchAgentByMessage clash_graph ''voice image'' = Some ''vision.analyze'' \<and>
   matchAgentByMessage clash_graph ''voice image'' \<noteq> Some ''voice.run''"
  by code_simp

section \<open>Claims about the activity decay tracker\<close>

lemma onmessage_target:
  "onmessage g now ev m = (case target g ev of None \<Rightarrow> m | Some k \<Rightarrow> m(k \<mapsto> now))"
  by (simp add: onmessage_def target_def has_content_def Let_def split: option.splits)

lemma sweep_reserved_key: "sweep now m ''__proto__'' = None"
  by (simp add: sweep_def split: option.splits)

lemma step_other:
  "N \<noteq> ''__proto__'' \<Longrightarrow> \<not> arrives_for g N a \<Longrightarrow> m N = Some T \<Longrightarrow>
     step g a m N = (case a of Message now ev \<Rightarrow> Some T
                     | Sweep now \<Rightarrow> if now - T < 4000 then Some T else None)"
  by (cases a) (auto simp: onmessage_target sweep_def split: option.splits)

lemma step_absent:
  "\<not> arrives_for g N a \<Longrightarrow> m N = None \<Longrightarrow> step g a m N = None"
  by (cases a) (auto simp: onmessage_target sweep_def split: option.splits)

lemma run_absent:
  "\<not> list_ex (arrives_for g N) acts \<Longrightarrow> m N = None \<Longrightarrow> run g acts m N = None"
  by (induction acts arbitrary: m) (simp_all add: step_absent)

lemma run_present:
  "N \<noteq> ''__proto__'' \<Longrightarrow> \<not> list_ex (arrives_for g N) acts \<Longrightarrow> m N = Some T \<Longrightarrow>
     run g acts m N = (if list_all (\<lambda>s. s - T < 4000) (sweep_times acts) then Some T else None)"
proof (induction acts arbitrary: m)
  case Nil
  then show ?case by simp
next
  case (Cons a acts)
  from Cons.prems have np: "N \<noteq> ''__proto__''"
    and na: "\<not> arrives_for g N a" and nr: "\<not> list_ex (arrives_for g N) acts"
    by simp_all
  show ?case
  proof (cases a)
    case (Message now ev)
    with step_other [of N g a m T, OF np na Cons.prems(3)] have "step g a m N = Some T" by simp
    with Cons.IH [of "step g a m", OF np nr this] Message show ?thesis by simp
  next
    case (Sweep now)
    show ?thesis
    proof (cases "now - T < 4000")
      case True
      with step_other [of N g a m T, OF np na Cons.prems(3)] Sweep have "step g a m N = Some T" by simp
      with Cons.IH [of "step g a m", OF np nr this] Sweep True show ?thesis by simp
    next
      case False
      with step_other [of N g a m T, OF np na Cons.prems(3)] Sweep have "step g a m N = None" by simp
      with run_absent [of g N acts "step g a m", OF nr this] Sweep False show ?thesis by simp
    qed
  qed
qed

lemma due_sweeps_before:
  assumes "q < T + 4000"
  shows "list_all (\<lambda>s. s - T < 4000) (due_sweeps s0 q)"
proof (cases "q < s0")
  case True
  then show ?thesis by (simp add: due_sweeps_def)
next
  case False
  have "s0 + 1000 * int i - T < 4000" if "i < Suc (nat ((q - s0) div 1000))" for i
  proof -
    from that False have "int i \<le> (q - s0) div 1000" by simp
    then have "1000 * int i \<le> 1000 * ((q - s0) div 1000)" by simp
    also have "\<dots> \<le> q - s0" by simp
    finally show ?thesis using assms by simp
  qed
  then have "\<forall>s \<in> set (map (\<lambda>i. s0 + 1000 * int i) [0..<Suc (nat ((q - s0) div 1000))]). s - T < 4000"
    by (simp del: upt_Suc)
  with False show ?thesis by (simp only: due_sweeps_def list_all_iff if_False)
qed

lemma last_sweep_due:
  assumes "s0 \<le> q"
  shows "s0 + 1000 * ((q - s0) div 1000) \<in> set (due_sweeps s0 q)"
proof -
  let ?n = "nat ((q - s0) div 1000)"
  from assms have eq: "int ?n = (q - s0) div 1000" by simp
  from assms have d: "due_sweeps s0 q = map (\<lambda>i. s0 + 1000 * int i) [0..<Suc ?n]"
    by (simp add: due_sweeps_def del: upt_Suc)
  have "?n \<in> set [0..<Suc ?n]" by (simp del: upt_Suc)
  then have "(\<lambda>i. s0 + 1000 * int i) ?n \<in> (\<lambda>i. s0 + 1000 * int i) ` set [0..<Suc ?n]"
    by (rule imageI)
  then have "s0 + 1000 * int ?n \<in> set (due_sweeps s0 q)"
    by (simp only: d set_map)
  then show ?thesis by (simp only: eq)
qed

lemma div_1000_bound: "(x::int) < 1000 * (x div 1000) + 1000"
proof -
  have "x mod 1000 < 1000" by simp
  moreover have "1000 * (x div 1000) + x mod 1000 = x" by (rule mult_div_mod_eq)
  ultimately show ?thesis by linarith
qed

lemma due_sweeps_after:
  assumes "T + 5000 \<le> q" "s0 \<le> T + 1000"
  shows "\<not> list_all (\<lambda>s. s - T < 4000) (due_sweeps s0 q)"
proof -
  from assms have le: "s0 \<le> q" by simp
  from div_1000_bound [of "q - s0"] assms
  have "\<not> (s0 + 1000 * ((q - s0) div 1000) - T < 4000)" by linarith
  with last_sweep_due [OF le] show ?thesis by (auto simp: list_all_iff)
qed

lemma aligned_bound:
  fixes d k :: int
  assumes "q - s0 < 1000 * d + 1000" "T + 4000 \<le> q" "s0 - T = 1000 * k"
  shows "4000 \<le> s0 + 1000 * d - T"
proof -
  from assms have "1000 * 3 < 1000 * (k + d)" by (simp add: algebra_simps)
  then have "3 < k + d" by simp
  then have "1000 * 4 \<le> 1000 * (k + d)" by simp
  with assms(3) show ?thesis by (simp add: algebra_simps)
qed

lemma due_sweeps_aligned:
  assumes "T + 4000 \<le> q" "s0 \<le> T + 1000" "(s0 - T) mod 1000 = 0"
  shows "\<not> list_all (\<lambda>s. s - T < 4000) (due_sweeps s0 q)"
proof -
  from assms have le: "s0 \<le> q" by simp
  from assms(3) have "1000 dvd (s0 - T)" by (simp add: mod_eq_0_iff_dvd)
  then obtain k where k: "s0 - T = 1000 * k" by (rule dvdE)
  from aligned_bound [OF div_1000_bound [of "q - s0"] assms(1) k]
  have "\<not> (s0 + 1000 * ((q - s0) div 1000) - T < 4000)" by simp
  with last_sweep_due [OF le] show ?thesis by (auto simp: list_all_iff)
qed

text \<open>
  C2, as amended. Let a message that resolves to a node id \<open>N\<close> other than
  \<open>__proto__\<close> (by its agentId or by correlation) be handled at time \<open>T\<close>, followed by callbacks \<open>acts\<close> among which no
  message resolves to \<open>N\<close> and whose timer ticks are those of a 1000 ms timer, first
  tick at \<open>s0\<close> no later than \<open>T + 1000\<close>, up to the query time \<open>q\<close>. Then the
  handler stores \<open>T\<close> for \<open>N\<close>, replacing any earlier time stamp, so a new arrival
  restarts the window; the entry is present with time stamp \<open>T\<close> at every query before
  \<open>T + 4000\<close>; it is removed from the record by the first tick at or after \<open>T + 4000\<close>
  and is therefore absent at every query from \<open>T + 5000\<close> on, and from \<open>T + 4000\<close> on
  when the ticks fall on \<open>T\<close> plus a multiple of 1000. Between \<open>T + 4000\<close> and that
  tick the entry is still present.
\<close>

theorem activity_window:
  assumes "target g ev = Some N"
    and "N \<noteq> ''__proto__''"
    and "\<not> list_ex (arrives_for g N) acts"
    and "sweep_times acts = due_sweeps s0 q"
    and "s0 \<le> T + 1000"
  shows "onmessage g T ev m N = Some T \<and>
         run g acts (onmessage g T ev m) N
           = (if list_all (\<lambda>s. s - T < 4000) (due_sweeps s0 q) then Some T else None) \<and>
         (q < T + 4000 \<longrightarrow> run g acts (onmessage g T ev m) N = Some T) \<and>
         (T + 5000 \<le> q \<longrightarrow> run g acts (onmessage g T ev m) N = None) \<and>
         (T + 4000 \<le> q \<and> (s0 - T) mod 1000 = 0 \<longrightarrow> run g acts (onmessage g T ev m) N = None)"
proof -
  let ?m = "onmessage g T ev m"
  from assms(1) have rec: "?m N = Some T" by (simp add: onmessage_target)
  from run_present [of N g acts ?m T, OF assms(2) assms(3) rec] assms(4)
  have r: "run g acts ?m N
           = (if list_all (\<lambda>s. s - T < 4000) (due_sweeps s0 q) then Some T else None)"
    by simp
  have a: "q < T + 4000 \<longrightarrow> run g acts ?m N = Some T"
    using r due_sweeps_before [of q T s0] by simp
  have b: "T + 5000 \<le> q \<longrightarrow> run g acts ?m N = None"
    using r due_sweeps_after [of T q s0] assms(5) by simp
  have c: "T + 4000 \<le> q \<and> (s0 - T) mod 1000 = 0 \<longrightarrow> run g acts ?m N = None"
    using r due_sweeps_aligned [of T q s0] assms(5) by simp
  show ?thesis by (rule conjI [OF rec conjI [OF r conjI [OF a conjI [OF b c]]]])
qed

theorem activity_window_witness:
  "target getAgentGraph (Some (agent_event ''vision.analyze'')) = Some ''vision.analyze'' \<and>
   ''vision.analyze'' \<noteq> ''__proto__'' \<and>
   \<not> list_ex (arrives_for getAgentGraph ''vision.analyze'')
        [Sweep 1000, Message 1500 (Some (agent_event ''voice.run'')), Sweep 2000, Sweep 3000, Sweep 4000] \<and>
   sweep_times [Sweep 1000, Message 1500 (Some (agent_event ''voice.run'')), Sweep 2000, Sweep 3000, Sweep 4000]
     = due_sweeps 1000 4000 \<and>
   (1000::int) \<le> 0 + 1000 \<and> (0::int) + 4000 \<le> 4000 \<and> ((1000::int) - 0) mod 1000 = 0 \<and>
   run getAgentGraph
       [Sweep 1000, Message 1500 (Some (agent_event ''voice.run'')), Sweep 2000, Sweep 3000, Sweep 4000]
       (onmessage getAgentGraph 0 (Some (agent_event ''vision.analyze'')) Map.empty) ''vision.analyze'' = None \<and>
   target getAgentGraph (Some (text_event veo_message)) = Some ''veo.generate'' \<and>
   sweep_times [Sweep 1000, Sweep 2000, Sweep 3000] = due_sweeps 1000 3999 \<and>
   (3999::int) < 0 + 4000 \<and>
   run getAgentGraph [Sweep 1000, Sweep 2000, Sweep 3000]
       (onmessage getAgentGraph 0 (Some (text_event veo_message)) Map.empty) ''veo.generate'' = Some 0"
proof -
  let ?acts = "[Sweep 1000, Message 1500 (Some (agent_event ''voice.run'')), Sweep 2000, Sweep 3000, Sweep 4000]"
  have h1: "target getAgentGraph (Some (agent_event ''vision.analyze'')) = Some ''vision.analyze''"
    by code_simp
  have p1: "''vision.analyze'' \<noteq> ''__proto__''" by simp
  have p2: "''veo.generate'' \<noteq> ''__proto__''" by simp
  have h2: "\<not> list_ex (arrives_for getAgentGraph ''vision.analyze'') ?acts" by code_simp
  have h3: "sweep_times ?acts = due_sweeps 1000 4000" by code_simp
  have h4: "(1000::int) \<le> 0 + 1000" by simp
  have h5: "(0::int) + 4000 \<le> 4000" by simp
  have h6: "((1000::int) - 0) mod 1000 = 0" by simp
  from activity_window [OF h1 p1 h2 h3 h4, of Map.empty] h5 h6
  have c1: "run getAgentGraph ?acts
       (onmessage getAgentGraph 0 (Some (agent_event ''vision.analyze'')) Map.empty) ''vision.analyze'' = None"
    by blast
  have k1: "target getAgentGraph (Some (text_event veo_message)) = Some ''veo.generate''"
    by code_simp
  have k2: "\<not> list_ex (arrives_for getAgentGraph ''veo.generate'') [Sweep 1000, Sweep 2000, Sweep 3000]"
    by simp
  have k3: "sweep_times [Sweep 1000, Sweep 2000, Sweep 3000] = due_sweeps 1000 3999" by code_simp
  have k5: "(3999::int) < 0 + 4000" by simp
  from activity_window [OF k1 p2 k2 k3 h4, of Map.empty] k5
  have c2: "run getAgentGraph [Sweep 1000, Sweep 2000, Sweep 3000]
       (onmessage getAgentGraph 0 (Some (text_event veo_message)) Map.empty) ''veo.generate'' = Some 0"
    by blast
  show ?thesis
    by (rule conjI [OF h1 conjI [OF p1 conjI [OF h2 conjI [OF h3 conjI [OF h4 conjI [OF h5 conjI [OF h6
          conjI [OF c1 conjI [OF k1 conjI [OF k3 conjI [OF k5 c2]]]]]]]]]]])
qed

text \<open>
  C2 as stated fails: with the arrival at 500 and ticks at 1000, 2000, 3000 and 4000, the
  entry is still present at the query time 4500, which is \<open>T + 4000\<close>.
\<close>

theorem activity_window_counterexample:
  "target getAgentGraph (Some (agent_event ''voice.run'')) = Some ''voice.run'' \<and>
   sweep_times [Sweep 1000, Sweep 2000, Sweep 3000, Sweep 4000] = due_sweeps 1000 4500 \<and>
   (500::int) + 4000 \<le> 4500 \<and>
   run getAgentGraph [Sweep 1000, Sweep 2000, Sweep 3000, Sweep 4000]
       (onmessage getAgentGraph 500 (Some (agent_event ''voice.run'')) Map.empty) ''voice.run'' = Some 500"
  by code_simp

section \<open>Claims about the HTTP endpoints\<close>

lemma truthy_or_else: "truthy fallback \<Longrightarrow> truthy (or_else a fallback)"
  by (simp add: or_else_def split: option.splits)

text \<open>
  C7. When the call of \<open>getAgentGraph\<close> throws, the graph endpoint answers with status
  500 and the payload \<open>{ error: message }\<close>, where the message is the thrown value's
  \<open>message\<close> when that is truthy and ``Failed to get graph'' otherwise, so it is never
  empty. When the call returns, the endpoint answers with status 200 and the graph
  itself; with the repository's \<open>getAgentGraph\<close> that is the whole built-in graph,
  fourteen nodes and ten edges, in one payload.
\<close>

theorem GET_responses:
  "r_status (GET_handler (Inl e)) = 500 \<and>
   (\<exists>msg. r_body (GET_handler (Inl e)) = JsonBody (JObj [(''error'', msg)]) \<and> truthy msg) \<and>
   GET_handler (Inl (Thrown (Some (JStr (c # cs))))) =
     \<lparr>r_status = 500, r_body = JsonBody (JObj [(''error'', JStr (c # cs))])\<rparr> \<and>
   GET_handler (Inl (Thrown None)) =
     \<lparr>r_status = 500, r_body = JsonBody (JObj [(''error'', JStr ''Failed to get graph'')])\<rparr> \<and>
   GET_handler (Inr graph) = \<lparr>r_status = 200, r_body = GraphBody graph\<rparr> \<and>
   GET = \<lparr>r_status = 200, r_body = GraphBody \<lparr>nodes = static_nodes, edges = static_edges\<rparr>\<rparr> \<and>
   length static_nodes = 14 \<and> length static_edges = 10"
proof -
  have 1: "r_status (GET_handler (Inl e)) = 500" by (simp add: GET_handler_def)
  have "truthy (or_else (thrown_message e) (JStr ''Failed to get graph''))"
    by (rule truthy_or_else) simp
  then have 2: "\<exists>msg. r_body (GET_handler (Inl e)) = JsonBody (JObj [(''error'', msg)]) \<and> truthy msg"
    by (simp add: GET_handler_def)
  have 3: "GET_handler (Inl (Thrown (Some (JStr (c # cs))))) =
     \<lparr>r_status = 500, r_body = JsonBody (JObj [(''error'', JStr (c # cs))])\<rparr>"
    by (simp add: GET_handler_def or_else_def)
  have 4: "GET_handler (Inl (Thrown None)) =
     \<lparr>r_status = 500, r_body = JsonBody (JObj [(''error'', JStr ''Failed to get graph'')])\<rparr>"
    by (simp add: GET_handler_def or_else_def)
  have 5: "GET_handler (Inr graph) = \<lparr>r_status = 200, r_body = GraphBody graph\<rparr>"
    by (simp add: GET_handler_def)
  have 6: "GET = \<lparr>r_status = 200, r_body = GraphBody \<lparr>nodes = static_nodes, edges = static_edges\<rparr>\<rparr>"
    by (simp add: GET_def GET_handler_def getAgentGraph_def)
  have 7: "length static_nodes = 14" by (simp add: static_nodes_def)
  have 8: "length static_edges = 10" by (simp add: static_edges_def)
  show ?thesis
    by (rule conjI [OF 1 conjI [OF 2 conjI [OF 3 conjI [OF 4 conjI [OF 5 conjI [OF 6 conjI [OF 7 8]]]]]]])
qed

lemma publish_valid:
  "has_content (ev_text ev) \<or> has_content (ev_agentId ev) \<Longrightarrow>
     publish session ev b = (None, map (deliver session ev) b)"
  by (auto simp: publish_def)

lemma dropWhile_all_iff: "(\<forall>x \<in> set (dropWhile P xs). P x) \<longleftrightarrow> (\<forall>x \<in> set xs. P x)"
proof
  assume a: "\<forall>x \<in> set (dropWhile P xs). P x"
  have "dropWhile P xs = []"
  proof (rule ccontr)
    assume n: "dropWhile P xs \<noteq> []"
    then have "\<not> P (hd (dropWhile P xs))" by (rule hd_dropWhile)
    moreover from n have "hd (dropWhile P xs) \<in> set (dropWhile P xs)" by (rule hd_in_set)
    ultimately show False using a by blast
  qed
  then show "\<forall>x \<in> set xs. P x" by (simp add: dropWhile_eq_Nil_conv)
next
  assume "\<forall>x \<in> set xs. P x"
  then show "\<forall>x \<in> set (dropWhile P xs). P x" by (auto dest: set_dropWhileD)
qed

lemma trim_empty_iff: "trim s = [] \<longleftrightarrow> list_all is_space s"
proof -
  have "trim s = [] \<longleftrightarrow> (\<forall>x \<in> set (dropWhile is_space s). is_space x)"
    by (simp add: trim_def dropWhile_eq_Nil_conv)
  then show ?thesis by (simp only: dropWhile_all_iff list_all_iff)
qed

lemma dropWhile_trim:
  "dropWhile is_space s
     = trim s @ rev (takeWhile is_space (rev (dropWhile is_space s)))"
proof -
  let ?d = "dropWhile is_space s"
  have "rev (dropWhile is_space (rev ?d)) @ rev (takeWhile is_space (rev ?d))
          = rev (takeWhile is_space (rev ?d) @ dropWhile is_space (rev ?d))"
    by (simp only: rev_append)
  also have "\<dots> = rev (rev ?d)" by (simp only: takeWhile_dropWhile_id)
  also have "\<dots> = ?d" by (simp only: rev_rev_ident)
  finally have "?d = rev (dropWhile is_space (rev ?d)) @ rev (takeWhile is_space (rev ?d))"
    by (rule sym)
  then show ?thesis by (simp only: trim_def)
qed

lemma trim_sandwich:
  "\<exists>pre post. s = pre @ trim s @ post \<and> list_all is_space pre \<and> list_all is_space post"
proof -
  let ?pre = "takeWhile is_space s"
  let ?post = "rev (takeWhile is_space (rev (dropWhile is_space s)))"
  have "s = ?pre @ dropWhile is_space s" by simp
  also have "dropWhile is_space s = trim s @ ?post" by (rule dropWhile_trim)
  finally have 1: "s = ?pre @ trim s @ ?post" .
  have 2: "list_all is_space ?pre"
    by (auto simp: list_all_iff dest: set_takeWhileD)
  have 3: "list_all is_space ?post"
    by (auto simp: list_all_iff dest: set_takeWhileD)
  from 1 2 3 show ?thesis by (intro exI conjI)
qed

lemma trim_ends:
  assumes "trim s \<noteq> []"
  shows "\<not> is_space (hd (trim s)) \<and> \<not> is_space (last (trim s))"
proof -
  let ?d = "dropWhile is_space s"
  have t: "trim s = rev (dropWhile is_space (rev ?d))" by (simp add: trim_def)
  from assms have "rev (dropWhile is_space (rev ?d)) \<noteq> []" unfolding t .
  then have ne: "dropWhile is_space (rev ?d) \<noteq> []" by (metis rev.simps(1))
  then have "\<not> is_space (hd (dropWhile is_space (rev ?d)))" by (rule hd_dropWhile)
  moreover have "last (trim s) = hd (dropWhile is_space (rev ?d))"
    by (simp only: t last_rev)
  ultimately have a: "\<not> is_space (last (trim s))" by simp
  from assms dropWhile_trim [of s] have "?d \<noteq> []" by (metis append_is_Nil_conv)
  then have "\<not> is_space (hd ?d)" by (rule hd_dropWhile)
  moreover from assms dropWhile_trim [of s] have "hd ?d = hd (trim s)"
    by (metis hd_append2)
  ultimately have "\<not> is_space (hd (trim s))" by simp
  with a show ?thesis by simp
qed

lemma POST_blank:
  assumes "js_String (session_value body) = Inr session" and "lacks_content body"
  shows "POST bus_publish now (Inr body) b =
          (\<lparr>r_status = 400,
            r_body = JObj [(''ok'', JBool False), (''error'', JStr ''Empty message and no agentId'')]\<rparr>,
           b)"
proof -
  from assms(2) have m: "(case string_prop body ''message'' of Some s \<Rightarrow> trim s | None \<Rightarrow> []) = []"
    by (simp add: lacks_content_def trim_empty_iff split: option.splits)
  from assms(2) have a: "\<not> has_content (string_prop body ''agentId'')"
    by (simp add: lacks_content_def)
  from assms(1) have s: "js_String (or_else (get_prop body ''session'') (JStr ''default'')) = Inr session"
    by (simp add: session_value_def)
  show ?thesis
    unfolding POST_def Let_def by (simp add: s m a)
qed

lemma POST_content:
  assumes "js_String (session_value body) = Inr session" and "\<not> lacks_content body"
  shows "\<exists>ev.
          ev_text ev = (case string_prop body ''message'' of
                          Some s \<Rightarrow> if list_all is_space s then None else Some (trim s)
                        | None \<Rightarrow> None) \<and>
          ev_agentId ev = string_prop body ''agentId'' \<and>
          ev_status ev = string_prop body ''status'' \<and>
          ev_ts ev = now \<and>
          POST bus_publish now (Inr body) b =
            (case bus_publish session ev b of
               (Some e, b') \<Rightarrow> (catch_response ''Failed to push'' e, b')
             | (None, b') \<Rightarrow> (\<lparr>r_status = 200, r_body = JObj [(''ok'', JBool True)]\<rparr>, b')) \<and>
          publish session ev subs = (None, map (deliver session ev) subs) \<and>
          POST publish now (Inr body) subs =
            (\<lparr>r_status = 200, r_body = JObj [(''ok'', JBool True)]\<rparr>,
             map (deliver session ev) subs)"
proof -
  let ?message = "case string_prop body ''message'' of Some s \<Rightarrow> trim s | None \<Rightarrow> []"
  let ?data = "if truthy body
               then (case get_prop body ''data'' of
                       Some v \<Rightarrow> if typeof_object v then Some v else None
                     | None \<Rightarrow> None)
               else None"
  let ?ev = "\<lparr>ev_text = (if ?message = [] then None else Some ?message),
              ev_agentId = string_prop body ''agentId'', ev_status = string_prop body ''status'',
              ev_data = ?data, ev_ts = now\<rparr>"
  from assms(1) have s: "js_String (or_else (get_prop body ''session'') (JStr ''default'')) = Inr session"
    by (simp add: session_value_def)
  from assms(2) have ok: "\<not> (?message = [] \<and> \<not> has_content (string_prop body ''agentId''))"
    by (simp add: lacks_content_def trim_empty_iff split: option.splits)
  then have "has_content (ev_text ?ev) \<or> has_content (ev_agentId ?ev)"
    by (auto simp: has_content_def)
  then have pub: "publish session ?ev subs = (None, map (deliver session ?ev) subs)"
    by (rule publish_valid)
  from ok have post: "POST bus_publish now (Inr body) b =
      (case bus_publish session ?ev b of
         (Some e, b') \<Rightarrow> (catch_response ''Failed to push'' e, b')
       | (None, b') \<Rightarrow> (\<lparr>r_status = 200, r_body = JObj [(''ok'', JBool True)]\<rparr>, b'))"
    unfolding POST_def Let_def by (simp only: s sum.case if_False)
  from ok have spost: "POST publish now (Inr body) subs =
      (\<lparr>r_status = 200, r_body = JObj [(''ok'', JBool True)]\<rparr>, map (deliver session ?ev) subs)"
    unfolding POST_def Let_def by (simp only: s pub sum.case if_False prod.case option.case)
  have evt: "ev_text ?ev = (case string_prop body ''message'' of
                          Some s \<Rightarrow> if list_all is_space s then None else Some (trim s)
                        | None \<Rightarrow> None)"
    by (simp add: trim_empty_iff split: option.splits)
  show ?thesis
    apply (rule exI [of _ ?ev])
    apply (intro conjI post spost pub evt)
    apply simp_all
    done
qed

lemma POST_thrown:
  "POST bus_publish now (Inl e) b = (catch_response ''Failed to push'' e, b)"
  "js_String (session_value body) = Inl e \<Longrightarrow>
     POST bus_publish now (Inr body) b = (catch_response ''Failed to push'' e, b)"
  by (simp_all add: POST_def session_value_def)

lemma POST_blank_unpublished:
  assumes "lacks_content body"
  shows "snd (POST bus_publish now (Inr body) b) = b"
proof (cases "js_String (session_value body)")
  case (Inl e)
  then show ?thesis by (simp add: POST_thrown)
next
  case (Inr session)
  from POST_blank [OF this assms, of bus_publish now b] show ?thesis by simp
qed

text \<open>
  C1, as amended. For every request, whatever the bus: when the body is not JSON, or the
  session cannot be converted to a string, the publish endpoint answers with status 500
  and the bus is left as it was. Otherwise, if the message is missing, not a string or
  nothing but white space, and the agentId is missing, not a string or empty, the
  endpoint answers with status 400 without calling the bus; in no case does a request
  without message and agentId reach a subscriber. Otherwise the endpoint publishes the
  event (trimmed text if any, agentId, status, time stamp \<open>now\<close>) under the session
  and answers with status 200 and \<open>ok: true\<close> when \<open>publish\<close> returns. The bus of the
  specification accepts every event the endpoint hands to it and appends it to what each
  subscriber of that session has received, and to no other subscriber's.
\<close>

theorem POST_validation:
  "POST bus_publish now (Inl e) b = (catch_response ''Failed to push'' e, b) \<and>
   r_status (catch_response ''Failed to push'' e) = 500 \<and>
   (js_String (session_value body) = Inl e
      \<longrightarrow> POST bus_publish now (Inr body) b = (catch_response ''Failed to push'' e, b)) \<and>
   (js_String (session_value body) = Inr session \<and> lacks_content body
      \<longrightarrow> POST bus_publish now (Inr body) b =
            (\<lparr>r_status = 400,
              r_body = JObj [(''ok'', JBool False),
                             (''error'', JStr ''Empty message and no agentId'')]\<rparr>,
             b)) \<and>
   (lacks_content body \<longrightarrow> snd (POST bus_publish now (Inr body) b) = b) \<and>
   (js_String (session_value body) = Inr session \<and> \<not> lacks_content body
      \<longrightarrow> (\<exists>ev.
            ev_text ev = (case string_prop body ''message'' of
                            Some s \<Rightarrow> if list_all is_space s then None else Some (trim s)
                          | None \<Rightarrow> None) \<and>
            ev_agentId ev = string_prop body ''agentId'' \<and>
            ev_status ev = string_prop body ''status'' \<and>
            ev_ts ev = now \<and>
            POST bus_publish now (Inr body) b =
              (case bus_publish session ev b of
                 (Some e, b') \<Rightarrow> (catch_response ''Failed to push'' e, b')
               | (None, b') \<Rightarrow> (\<lparr>r_status = 200, r_body = JObj [(''ok'', JBool True)]\<rparr>, b')) \<and>
            publish session ev subs = (None, map (deliver session ev) subs) \<and>
            POST publish now (Inr body) subs =
              (\<lparr>r_status = 200, r_body = JObj [(''ok'', JBool True)]\<rparr>,
               map (deliver session ev) subs)))"
proof (intro conjI impI)
  show "POST bus_publish now (Inl e) b = (catch_response ''Failed to push'' e, b)"
    by (rule POST_thrown(1))
  show "r_status (catch_response ''Failed to push'' e) = 500"
    by (simp add: catch_response_def)
next
  assume "js_String (session_value body) = Inl e"
  then show "POST bus_publish now (Inr body) b = (catch_response ''Failed to push'' e, b)"
    by (rule POST_thrown(2))
next
  assume "js_String (session_value body) = Inr session \<and> lacks_content body"
  then show "POST bus_publish now (Inr body) b =
            (\<lparr>r_status = 400,
              r_body = JObj [(''ok'', JBool False),
                             (''error'', JStr ''Empty message and no agentId'')]\<rparr>,
             b)"
    using POST_blank [of body session bus_publish now b] by simp
next
  assume "lacks_content body"
  then show "snd (POST bus_publish now (Inr body) b) = b"
    by (rule POST_blank_unpublished)
next
  assume "js_String (session_value body) = Inr session \<and> \<not> lacks_content body"
  then show "\<exists>ev.
            ev_text ev = (case string_prop body ''message'' of
                            Some s \<Rightarrow> if list_all is_space s then None else Some (trim s)
                          | None \<Rightarrow> None) \<and>
            ev_agentId ev = string_prop body ''agentId'' \<and>
            ev_status ev = string_prop body ''status'' \<and>
            ev_ts ev = now \<and>
            POST bus_publish now (Inr body) b =
              (case bus_publish session ev b of
                 (Some e, b') \<Rightarrow> (catch_response ''Failed to push'' e, b')
               | (None, b') \<Rightarrow> (\<lparr>r_status = 200, r_body = JObj [(''ok'', JBool True)]\<rparr>, b')) \<and>
            publish session ev subs = (None, map (deliver session ev) subs) \<and>
            POST publish now (Inr body) subs =
              (\<lparr>r_status = 200, r_body = JObj [(''ok'', JBool True)]\<rparr>,
               map (deliver session ev) subs)"
    using POST_content [of body session now bus_publish b subs] by simp
qed

theorem POST_validation_witness:
  "js_String (session_value blank_request) = Inr ''s1'' \<and> lacks_content blank_request \<and>
   POST publish 17 (Inr blank_request) demo_bus =
     (\<lparr>r_status = 400,
       r_body = JObj [(''ok'', JBool False), (''error'', JStr ''Empty message and no agentId'')]\<rparr>,
      demo_bus) \<and>
   snd (POST publish 17 (Inr blank_request) demo_bus) = demo_bus \<and>
   js_String (session_value text_request) = Inr ''default'' \<and> \<not> lacks_content text_request \<and>
   (\<exists>ev.
      ev_text ev = (case string_prop text_request ''message'' of
                      Some s \<Rightarrow> if list_all is_space s then None else Some (trim s)
                    | None \<Rightarrow> None) \<and>
      ev_agentId ev = string_prop text_request ''agentId'' \<and>
      ev_status ev = string_prop text_request ''status'' \<and>
      ev_ts ev = 17 \<and>
      POST publish 17 (Inr text_request) demo_bus =
        (case publish ''default'' ev demo_bus of
           (Some e, b') \<Rightarrow> (catch_response ''Failed to push'' e, b')
         | (None, b') \<Rightarrow> (\<lparr>r_status = 200, r_body = JObj [(''ok'', JBool True)]\<rparr>, b')) \<and>
      publish ''default'' ev demo_bus = (None, map (deliver ''default'' ev) demo_bus) \<and>
      POST publish 17 (Inr text_request) demo_bus =
        (\<lparr>r_status = 200, r_body = JObj [(''ok'', JBool True)]\<rparr>,
         map (deliver ''default'' ev) demo_bus)) \<and>
   POST publish 17 (Inr text_request) demo_bus =
     (\<lparr>r_status = 200, r_body = JObj [(''ok'', JBool True)]\<rparr>,
      [\<lparr>sub_session = ''s1'', received = []\<rparr>,
       \<lparr>sub_session = ''s2'', received = []\<rparr>,
       \<lparr>sub_session = ''default'',
        received = [\<lparr>ev_text = Some ''Rendering frame 3'', ev_agentId = None, ev_status = None,
                     ev_data = None, ev_ts = 17\<rparr>]\<rparr>]) \<and>
   POST publish 17 (Inr agent_request) demo_bus =
     (\<lparr>r_status = 200, r_body = JObj [(''ok'', JBool True)]\<rparr>,
      [\<lparr>sub_session = ''s1'',
        received = [\<lparr>ev_text = None, ev_agentId = Some ''vision.analyze'', ev_status = None,
                     ev_data = None, ev_ts = 17\<rparr>]\<rparr>,
       \<lparr>sub_session = ''s2'', received = []\<rparr>,
       \<lparr>sub_session = ''default'', received = []\<rparr>]) \<and>
   js_String (session_value unconvertible_request) = Inl cannot_convert \<and>
   POST publish 17 (Inr unconvertible_request) demo_bus =
     (catch_response ''Failed to push'' cannot_convert, demo_bus)"
proof -
  have b1: "js_String (session_value blank_request) = Inr ''s1''" by code_simp
  have b2: "lacks_content blank_request" by code_simp
  note b3 = POST_validation [where body = blank_request and session = "''s1''"
              and bus_publish = publish and now = 17 and b = demo_bus,
              THEN conjunct2, THEN conjunct2, THEN conjunct2, THEN conjunct1, THEN mp,
              OF conjI [OF b1 b2]]
  note b4 = POST_validation [where body = blank_request
              and bus_publish = publish and now = 17 and b = demo_bus,
              THEN conjunct2, THEN conjunct2, THEN conjunct2, THEN conjunct2, THEN conjunct1,
              THEN mp, OF b2]
  have t1: "js_String (session_value text_request) = Inr ''default''" by code_simp
  have t2: "\<not> lacks_content text_request" by code_simp
  note t3 = POST_validation [where body = text_request and session = "''default''"
              and bus_publish = publish and now = 17 and b = demo_bus and subs = demo_bus,
              THEN conjunct2, THEN conjunct2, THEN conjunct2, THEN conjunct2, THEN conjunct2,
              THEN mp, OF conjI [OF t1 t2]]
  have t4: "POST publish 17 (Inr text_request) demo_bus =
     (\<lparr>r_status = 200, r_body = JObj [(''ok'', JBool True)]\<rparr>,
      [\<lparr>sub_session = ''s1'', received = []\<rparr>,
       \<lparr>sub_session = ''s2'', received = []\<rparr>,
       \<lparr>sub_session = ''default'',
        received = [\<lparr>ev_text = Some ''Rendering frame 3'', ev_agentId = None, ev_status = None,
                     ev_data = None, ev_ts = 17\<rparr>]\<rparr>])"
    by code_simp
  have a1: "POST publish 17 (Inr agent_request) demo_bus =
     (\<lparr>r_status = 200, r_body = JObj [(''ok'', JBool True)]\<rparr>,
      [\<lparr>sub_session = ''s1'',
        received = [\<lparr>ev_text = None, ev_agentId = Some ''vision.analyze'', ev_status = None,
                     ev_data = None, ev_ts = 17\<rparr>]\<rparr>,
       \<lparr>sub_session = ''s2'', received = []\<rparr>,
       \<lparr>sub_session = ''default'', received = []\<rparr>])"
    by code_simp
  have u1: "js_String (session_value unconvertible_request) = Inl cannot_convert" by code_simp
  note u2 = POST_validation [where body = unconvertible_request and e = cannot_convert
              and bus_publish = publish and now = 17 and b = demo_bus,
              THEN conjunct2, THEN conjunct2, THEN conjunct1, THEN mp, OF u1]
  show ?thesis
    by (rule conjI [OF b1 conjI [OF b2 conjI [OF b3 conjI [OF b4 conjI [OF t1 conjI [OF t2
          conjI [OF t3 conjI [OF t4 conjI [OF a1 conjI [OF u1 u2]]]]]]]]]])
qed

text \<open>
  C1 as stated fails: a request with the agentId \<open>vision.analyze\<close> whose session is
  the object \<open>{"toString": 1}\<close> is answered with status 500 and nothing is published,
  and so is a request whose body is not JSON.
\<close>

theorem POST_validation_counterexample:
  "has_content (string_prop unconvertible_request ''agentId'') \<and>
   r_status (fst (POST publish 17 (Inr unconvertible_request) demo_bus)) = 500 \<and>
   snd (POST publish 17 (Inr unconvertible_request) demo_bus) = demo_bus \<and>
   r_status (fst (POST publish 17 (Inl (Thrown (Some (JStr ''Unexpected end of JSON input'')))) demo_bus))
     = 500"
  by code_simp

end
